theory Spec2Isabelle
  imports Main "HOL-Library.Word"
begin

unbundle bit_operations_syntax

section \<open>The allocator of \<^verbatim>\<open>mm.c\<close> as functions on an explicit state\<close>

text \<open>
  The C file keeps its state in file-scope globals and in the managed region itself.
  Both are made explicit: a byte-addressed memory, the table \<^verbatim>\<open>seg[11]\<close> of list heads,
  the two globals \<^verbatim>\<open>heap_listp\<close> and \<^verbatim>\<open>free_list\<close>, and the bounds of the backing
  store. \<^verbatim>\<open>size_t\<close> and pointers are 64-bit words, so every \<open>+\<close>, \<open>-\<close> and \<open>*\<close> below
  wraps as the machine operation does.
\<close>

type_synonym size_t = "64 word"
type_synonym ptr = "64 word"
type_synonym memory = "64 word \<Rightarrow> 8 word"

record state =
  mem :: memory
  seg :: "nat \<Rightarrow> ptr"
  heap_listp :: ptr
  free_list :: ptr
  mem_brk :: ptr
  mem_max_addr :: ptr

subsection \<open>Word-sized loads and stores\<close>

text \<open>
  \<^verbatim>\<open>*(size_t *)p\<close> reads or writes the eight bytes at \<open>p .. p + 7\<close>; the byte order is
  little-endian (byte \<open>i\<close> holds bits \<open>8 * i .. 8 * i + 7\<close>).
\<close>

definition load64 :: "memory \<Rightarrow> ptr \<Rightarrow> size_t" where
  "load64 m p =
     word_rcat [m (p + 7), m (p + 6), m (p + 5), m (p + 4), m (p + 3), m (p + 2), m (p + 1), m p]"

definition store64 :: "memory \<Rightarrow> ptr \<Rightarrow> size_t \<Rightarrow> memory" where
  "store64 m p v = (\<lambda>a. if a - p < 8 then ucast (drop_bit (8 * unat (a - p)) v) else m a)"

text \<open>
  \<^verbatim>\<open>memcpy\<close> and \<^verbatim>\<open>memset\<close> of the C library (the driver's \<^verbatim>\<open>mm_memcpy\<close>, \<^verbatim>\<open>mm_memset\<close>):
  \<open>n\<close> bytes starting at \<open>dst\<close> are overwritten, the source is read in the state before.
\<close>

definition memcpy :: "state \<Rightarrow> ptr \<Rightarrow> ptr \<Rightarrow> size_t \<Rightarrow> state" where
  "memcpy s dst src n =
     s\<lparr>mem := (\<lambda>a. if a - dst < n then mem s (src + (a - dst)) else mem s a)\<rparr>"

definition memset :: "state \<Rightarrow> ptr \<Rightarrow> 8 word \<Rightarrow> size_t \<Rightarrow> state" where
  "memset s dst c n = s\<lparr>mem := (\<lambda>a. if a - dst < n then c else mem s a)\<rparr>"

subsection \<open>Constants and the block codec (lines 59--135)\<close>

definition ALIGNMENT :: size_t where "ALIGNMENT = 16"
definition WSIZE :: size_t where "WSIZE = 8"
definition DSIZE :: size_t where "DSIZE = 16"
definition CHUNKSIZE :: size_t where "CHUNKSIZE = push_bit 5 1"

definition align :: "size_t \<Rightarrow> size_t" where
  "align x = ALIGNMENT * ((x + ALIGNMENT - 1) div ALIGNMENT)"

definition MAX_sz :: "size_t \<Rightarrow> size_t \<Rightarrow> size_t" where
  "MAX_sz x y = (if x > y then x else y)"

definition MIN_sz :: "size_t \<Rightarrow> size_t \<Rightarrow> size_t" where
  "MIN_sz x y = (if x < y then x else y)"

definition PACK :: "size_t \<Rightarrow> size_t \<Rightarrow> size_t" where
  "PACK sz alloc = sz OR alloc"

definition GET :: "state \<Rightarrow> ptr \<Rightarrow> size_t" where
  "GET s p = load64 (mem s) p"

definition PUT :: "state \<Rightarrow> ptr \<Rightarrow> size_t \<Rightarrow> state" where
  "PUT s p val = s\<lparr>mem := store64 (mem s) p val\<rparr>"

definition GET_SIZE :: "state \<Rightarrow> ptr \<Rightarrow> size_t" where
  "GET_SIZE s p = GET s p AND NOT 0xf"

definition GET_ALLOC :: "state \<Rightarrow> ptr \<Rightarrow> size_t" where
  "GET_ALLOC s p = GET s p AND 0x1"

definition HDRP :: "ptr \<Rightarrow> ptr" where
  "HDRP bp = bp - WSIZE"

definition FTRP :: "state \<Rightarrow> ptr \<Rightarrow> ptr" where
  "FTRP s bp = bp + GET_SIZE s (HDRP bp) - DSIZE"

definition NEXT_BLKP :: "state \<Rightarrow> ptr \<Rightarrow> ptr" where
  "NEXT_BLKP s bp = bp + GET_SIZE s (bp - WSIZE)"

definition PREV_BLKP :: "state \<Rightarrow> ptr \<Rightarrow> ptr" where
  "PREV_BLKP s bp = bp - GET_SIZE s (bp - DSIZE)"

definition NEXTF :: "state \<Rightarrow> ptr \<Rightarrow> ptr" where
  "NEXTF s bp = GET s (bp + WSIZE)"

definition PREVF :: "state \<Rightarrow> ptr \<Rightarrow> ptr" where
  "PREVF s bp = GET s bp"

subsection \<open>Size classes (lines 137--180)\<close>

definition iterate :: "size_t \<Rightarrow> nat" where
  "iterate sz =
    (if sz < 32 then 0
     else if sz \<ge> 32 \<and> sz < 64 then 1
     else if sz \<ge> 64 \<and> sz < 128 then 2
     else if sz \<ge> 128 \<and> sz < 256 then 3
     else if sz \<ge> 256 \<and> sz < 512 then 4
     else if sz \<ge> 512 \<and> sz < 1024 then 5
     else if sz \<ge> 1024 \<and> sz < 2048 then 6
     else if sz \<ge> 2048 \<and> sz < 4096 then 7
     else if sz \<ge> 4096 \<and> sz < 8192 then 8
     else if sz \<ge> 8192 \<and> sz < 16384 then 9
     else 10)"

subsection \<open>The free-list table (lines 183--240)\<close>

text \<open>
  \<^verbatim>\<open>delete\<close>: the \<^verbatim>\<open>while (i != 11)\<close> loop counts \<open>i\<close> up from 0 and returns from inside at
  the first head equal to \<open>bp\<close>; \<open>delete_loop\<close> is that loop from index \<open>i\<close>, followed by
  the code after the loop when no head matched.
\<close>

function delete_loop :: "state \<Rightarrow> ptr \<Rightarrow> nat \<Rightarrow> state" where
  "delete_loop s bp i =
    (if i < 11 then
       (if bp = seg s i then
          (if PREVF s bp = 0 \<and> NEXTF s bp \<noteq> 0 then
             (let s1 = PUT s (NEXTF s bp) 0
              in s1\<lparr>seg := (seg s1)(i := NEXTF s1 bp)\<rparr>)
           else s\<lparr>seg := (seg s)(i := 0)\<rparr>)
        else delete_loop s bp (i + 1))
     else
       (if PREVF s bp \<noteq> 0 \<and> NEXTF s bp = 0 then
          PUT s (PREVF s bp + WSIZE) 0
        else
          (let s1 = PUT s (NEXTF s bp) (PREVF s bp)
           in PUT s1 (PREVF s1 bp + WSIZE) (NEXTF s1 bp))))"
  by pat_completeness auto
termination
  by (relation "measure (\<lambda>(s, bp, i). 11 - i)") auto

declare delete_loop.simps [simp del]

definition delete :: "state \<Rightarrow> ptr \<Rightarrow> state" where
  "delete s bp = delete_loop s bp 0"

definition insert_blk :: "state \<Rightarrow> ptr \<Rightarrow> state" where
  "insert_blk s bp =
    (let sz = GET_SIZE s (HDRP bp);
         find = iterate sz
     in if seg s find \<noteq> 0 then
          (let s1 = PUT s (bp + WSIZE) (seg s find);
               s2 = PUT s1 (seg s1 find) bp;
               s3 = PUT s2 bp 0
           in s3\<lparr>seg := (seg s3)(find := bp)\<rparr>)
        else
          (let s1 = PUT s (bp + WSIZE) 0;
               s2 = PUT s1 bp 0
           in s2\<lparr>seg := (seg s2)(find := bp)\<rparr>))"

subsection \<open>Coalescing and heap extension (lines 242--330)\<close>

definition coalesce :: "state \<Rightarrow> ptr \<Rightarrow> ptr \<times> state" where
  "coalesce s bp =
    (let prev_alloc = (GET_ALLOC s (FTRP s (PREV_BLKP s bp)) \<noteq> 0 \<or> PREV_BLKP s bp = bp);
         next_alloc = (GET_ALLOC s (HDRP (NEXT_BLKP s bp)) \<noteq> 0);
         sz = GET_SIZE s (HDRP bp)
     in if prev_alloc \<and> next_alloc then (bp, insert_blk s bp)
        else if prev_alloc \<and> \<not> next_alloc then
          (let sz = sz + GET_SIZE s (HDRP (NEXT_BLKP s bp));
               s1 = delete s (NEXT_BLKP s bp);
               s2 = PUT s1 (HDRP bp) (PACK sz 0);
               s3 = PUT s2 (FTRP s2 bp) (PACK sz 0)
           in (bp, insert_blk s3 bp))
        else if \<not> prev_alloc \<and> next_alloc then
          (let sz = sz + GET_SIZE s (HDRP (PREV_BLKP s bp));
               s1 = delete s (PREV_BLKP s bp);
               s2 = PUT s1 (HDRP (PREV_BLKP s1 bp)) (PACK sz 0);
               s3 = PUT s2 (FTRP s2 bp) (PACK sz 0);
               bp = PREV_BLKP s3 bp
           in (bp, insert_blk s3 bp))
        else
          (let sz = sz + GET_SIZE s (HDRP (PREV_BLKP s bp))
                           + GET_SIZE s (FTRP s (NEXT_BLKP s bp));
               s1 = delete s (PREV_BLKP s bp);
               s2 = delete s1 (NEXT_BLKP s1 bp);
               s3 = PUT s2 (HDRP (PREV_BLKP s2 bp)) (PACK sz 0);
               s4 = PUT s3 (FTRP s3 (NEXT_BLKP s3 bp)) (PACK sz 0);
               bp = PREV_BLKP s4 bp
           in (bp, insert_blk s4 bp)))"

text \<open>
  Modelled from the spec: the backing-store growth primitive \<^verbatim>\<open>mem_sbrk\<close> of
  \<^verbatim>\<open>memlib.c\<close>, which is not among the sources. The spec's \<open>growRegion\<close> returns the start
  of the new region or a failure sentinel, extends the region monotonically, and leaves
  the prior state unaltered on failure. The region it can ever hand out ends at
  \<open>mem_max_addr\<close>; \<open>None\<close> is the failure sentinel.
\<close>

definition mem_sbrk :: "state \<Rightarrow> size_t \<Rightarrow> (ptr \<times> state) option" where
  "mem_sbrk s incr =
    (if unat (mem_brk s) + unat incr \<le> unat (mem_max_addr s)
     then Some (mem_brk s, s\<lparr>mem_brk := mem_brk s + incr\<rparr>)
     else None)"

definition extend_heap :: "state \<Rightarrow> size_t \<Rightarrow> ptr \<times> state" where
  "extend_heap s words =
    (let sz = (if words mod 2 \<noteq> 0 then (words + 1) * WSIZE else words * WSIZE)
     in case mem_sbrk s sz of
          None \<Rightarrow> (0, s)
        | Some (bp, s0) \<Rightarrow>
            (let s1 = PUT s0 (HDRP bp) (PACK sz 0);
                 s2 = PUT s1 (FTRP s1 bp) (PACK sz 0);
                 s3 = PUT s2 (HDRP (NEXT_BLKP s2 bp)) (PACK 0 1)
             in coalesce s3 bp))"

text \<open>
  When \<^verbatim>\<open>mem_sbrk\<close> fails it returns \<^verbatim>\<open>(void *)-1\<close>, and the assignment inside the condition of
  \<^verbatim>\<open>mm_init\<close> has stored that value in \<open>heap_listp\<close> before the test.
\<close>

definition mm_init :: "state \<Rightarrow> bool \<times> state" where
  "mm_init s =
    (let s0 = s\<lparr>seg := (\<lambda>i. if i < 11 then 0 else seg s i)\<rparr>
     in case mem_sbrk s0 (2 * WSIZE) of
          None \<Rightarrow> (False, s0\<lparr>heap_listp := - 1\<rparr>)
        | Some (p, s1) \<Rightarrow>
            (let s2 = s1\<lparr>heap_listp := p\<rparr>;
                 s3 = PUT s2 (heap_listp s2) 0;
                 s4 = PUT s3 (heap_listp s3 + 1 * WSIZE) (PACK DSIZE 1);
                 s5 = PUT s4 (heap_listp s4 + 2 * WSIZE) (PACK DSIZE 1);
                 s6 = PUT s5 (heap_listp s5 + 3 * WSIZE) (PACK 0 1);
                 s7 = s6\<lparr>heap_listp := heap_listp s6 + 2 * WSIZE\<rparr>;
                 s8 = s7\<lparr>free_list := 0\<rparr>
             in case extend_heap s8 CHUNKSIZE of (r, s9) \<Rightarrow>
                  if r = 0 then (False, s9) else (True, s9)))"

subsection \<open>Fit search and placement (lines 332--366)\<close>

text \<open>
  The inner \<^verbatim>\<open>for\<close> loop of \<^verbatim>\<open>find_fit\<close> follows the \<open>next\<close> links until it meets 0; on a
  cyclic list it never returns, which is the value \<open>None\<close>. \<open>Some 0\<close> is the loop running
  off the end of the list.
\<close>

partial_function (option) find_fit_list :: "state \<Rightarrow> ptr \<Rightarrow> size_t \<Rightarrow> ptr option" where
  "find_fit_list s bp asize =
    (if bp \<noteq> 0 then
       (if asize \<le> GET_SIZE s (HDRP bp) then Some bp
        else find_fit_list s (NEXTF s bp) asize)
     else Some 0)"

function find_fit_classes :: "state \<Rightarrow> nat \<Rightarrow> size_t \<Rightarrow> ptr option" where
  "find_fit_classes s i asize =
    (if i < 11 then
       (case find_fit_list s (seg s i) asize of
          None \<Rightarrow> None
        | Some bp \<Rightarrow> if bp \<noteq> 0 then Some bp else find_fit_classes s (i + 1) asize)
     else Some 0)"
  by pat_completeness auto
termination
  by (relation "measure (\<lambda>(s, i, asize). 11 - i)") auto

declare find_fit_classes.simps [simp del]

definition find_fit :: "state \<Rightarrow> size_t \<Rightarrow> ptr option" where
  "find_fit s asize = find_fit_classes s (iterate asize) asize"

definition place :: "state \<Rightarrow> ptr \<Rightarrow> size_t \<Rightarrow> state" where
  "place s bp asize =
    (let csize = GET_SIZE s (HDRP bp)
     in if csize - asize \<ge> 2 * DSIZE then
          (let s1 = PUT s (HDRP bp) (PACK asize 1);
               s2 = PUT s1 (FTRP s1 bp) (PACK asize 1);
               s3 = delete s2 bp;
               bp = NEXT_BLKP s3 bp;
               s4 = PUT s3 (HDRP bp) (PACK (csize - asize) 0);
               s5 = PUT s4 (FTRP s4 bp) (PACK (csize - asize) 0)
           in snd (coalesce s5 bp))
        else
          (let s1 = PUT s (HDRP bp) (PACK csize 1);
               s2 = PUT s1 (FTRP s1 bp) (PACK csize 1)
           in delete s2 bp))"

subsection \<open>The public operations (lines 370--456)\<close>

text \<open>
  \<^verbatim>\<open>mm_checkheap\<close> is compiled without \<^verbatim>\<open>DEBUG\<close>: it returns \<^verbatim>\<open>true\<close> and touches
  nothing, so its calls are left out. The result \<open>None\<close> of the three operations that
  search the lists is the fit search not returning.
\<close>

definition adjust :: "size_t \<Rightarrow> size_t" where
  "adjust sz =
    (if sz \<le> DSIZE then 2 * DSIZE
     else DSIZE * ((sz + DSIZE + (DSIZE - 1)) div DSIZE))"

definition malloc :: "state \<Rightarrow> size_t \<Rightarrow> (ptr \<times> state) option" where
  "malloc s sz =
    (if sz = 0 then Some (0, s)
     else
       (let asize = adjust sz
        in case find_fit s asize of
             None \<Rightarrow> None
           | Some bp \<Rightarrow>
               if bp \<noteq> 0 then Some (bp, place s bp asize)
               else
                 (let extendsize = MAX_sz asize CHUNKSIZE
                  in case extend_heap s (extendsize div WSIZE) of (bp, s1) \<Rightarrow>
                       if bp = 0 then Some (0, s1)
                       else Some (bp, place s1 bp asize))))"

definition free :: "state \<Rightarrow> ptr \<Rightarrow> state" where
  "free s ptr =
    (let sz = GET_SIZE s (HDRP ptr);
         s1 = PUT s (HDRP ptr) (PACK sz 0);
         s2 = PUT s1 (FTRP s1 ptr) (PACK sz 0)
     in snd (coalesce s2 ptr))"

definition realloc :: "state \<Rightarrow> ptr \<Rightarrow> size_t \<Rightarrow> (ptr \<times> state) option" where
  "realloc s oldptr sz =
    (case malloc s sz of
       None \<Rightarrow> None
     | Some (update, s1) \<Rightarrow>
         if oldptr = 0 then malloc s1 sz
         else if sz = 0 then Some (0, free s1 oldptr)
         else
           (let update_size = MIN_sz (GET_SIZE s1 (HDRP oldptr) - WSIZE) sz;
                s2 = memcpy s1 update oldptr update_size;
                s3 = free s2 oldptr
            in Some (update, s3)))"

definition calloc :: "state \<Rightarrow> size_t \<Rightarrow> size_t \<Rightarrow> (ptr \<times> state) option" where
  "calloc s nmemb sz =
    (let sz = sz * nmemb
     in case malloc s sz of
          None \<Rightarrow> None
        | Some (ptr, s1) \<Rightarrow>
            if ptr \<noteq> 0 then Some (ptr, memset s1 ptr 0 sz) else Some (ptr, s1))"

section \<open>Specification-level definitions\<close>

subsection \<open>The size-class table as the specification words it\<close>

text \<open>
  The specification's \<open>classOf\<close>: the boundaries 32, 64, \<dots>, 16384 split the sizes into
  eleven ranges, and the class of a size is the number of boundaries it has reached.
\<close>

definition class_bounds :: "nat list" where
  "class_bounds = [32, 64, 128, 256, 512, 1024, 2048, 4096, 8192, 16384]"

definition classOf_spec :: "size_t \<Rightarrow> nat" where
  "classOf_spec sz = length (filter (\<lambda>b. b \<le> unat sz) class_bounds)"

subsection \<open>Concrete heaps\<close>

text \<open>
  \<open>heap0\<close> is a zeroed backing store of 4096 bytes starting at address 4096, before
  \<^verbatim>\<open>mm_init\<close>; \<open>heap1\<close> is the state \<^verbatim>\<open>mm_init\<close> leaves (lemma \<open>init_heap0\<close>): one free
  block of 256 bytes with payload at 4112, registered in class 4.
\<close>

definition heap0 :: state where
  "heap0 = \<lparr>mem = (\<lambda>_. 0), seg = (\<lambda>_. 0), heap_listp = 0, free_list = 0,
     mem_brk = 4096, mem_max_addr = 8192\<rparr>"

definition heap1 :: state where
  "heap1 = \<lparr>mem = store64 (store64 (store64 (store64 (store64 (store64
                    (store64 (store64 (store64 (\<lambda>_. 0) 4096 0) 4104 17) 4112 17)
                    4120 1) 4104 256) 4352 256) 4360 1) 4120 0) 4112 0,
         seg = (\<lambda>_. 0)(4 := 4112),
         heap_listp = 4112, free_list = 0, mem_brk = 4368, mem_max_addr = 8192\<rparr>"

section \<open>Well-formed heaps\<close>

text \<open>
  The properties of the allocator are stated over heaps that the code itself can have
  built. Addresses are natural numbers here; \<open>rd\<close> and \<open>wr\<close> are \<open>GET\<close> and \<open>PUT\<close> at such an
  address, and \<open>va\<close> says that an address is 8-aligned and fits 64 bits.
\<close>

type_synonym block = "nat \<times> bool"

definition rd :: "state \<Rightarrow> nat \<Rightarrow> size_t" where
  "rd s a = GET s (of_nat a)"

definition wr :: "state \<Rightarrow> nat \<Rightarrow> size_t \<Rightarrow> state" where
  "wr s a v = PUT s (of_nat a) v"

definition va :: "nat \<Rightarrow> bool" where
  "va a = (8 dvd a \<and> a < 2 ^ 64)"

subsection \<open>The sequence of blocks\<close>

text \<open>
  A heap is described by the list of its blocks in address order, each a pair of its
  size and its allocated flag. \<open>tag\<close> is the header (and footer) word of a block, \<open>tags\<close>
  says that the blocks lie one after the other from the header address \<open>h\<close> on, each
  with matching header and footer. \<open>free_bps\<close> lists the payload pointers of the free
  blocks, \<open>hf_set\<close> the addresses of all headers and footers, and \<open>alloc_words\<close> the
  addresses of the payload words of the allocated blocks.
\<close>

definition tag :: "nat \<Rightarrow> bool \<Rightarrow> size_t" where
  "tag sz al = PACK (of_nat sz) (if al then 1 else 0)"

definition total :: "block list \<Rightarrow> nat" where
  "total bs = sum_list (map fst bs)"

definition sizes_ok :: "block list \<Rightarrow> bool" where
  "sizes_ok bs = list_all (\<lambda>b. 32 \<le> fst b \<and> 16 dvd fst b) bs"

fun tags :: "state \<Rightarrow> nat \<Rightarrow> block list \<Rightarrow> bool" where
  "tags s h [] = True"
| "tags s h (b # bs) =
     (rd s h = tag (fst b) (snd b) \<and> rd s (h + fst b - 8) = tag (fst b) (snd b)
      \<and> tags s (h + fst b) bs)"

fun free_bps :: "nat \<Rightarrow> block list \<Rightarrow> nat list" where
  "free_bps h [] = []"
| "free_bps h (b # bs) = (if snd b then [] else [h + 8]) @ free_bps (h + fst b) bs"

fun no_adj_free :: "block list \<Rightarrow> bool" where
  "no_adj_free (x # y # r) = ((snd x \<or> snd y) \<and> no_adj_free (y # r))"
| "no_adj_free r = True"

fun hf_set :: "nat \<Rightarrow> block list \<Rightarrow> nat set" where
  "hf_set h [] = {}"
| "hf_set h (b # bs) = {h, h + fst b - 8} \<union> hf_set (h + fst b) bs"

fun alloc_words :: "nat \<Rightarrow> block list \<Rightarrow> nat set" where
  "alloc_words h [] = {}"
| "alloc_words h (b # bs) =
     (if snd b then {q. h + 8 \<le> q \<and> q + 16 \<le> h + fst b} else {}) \<union> alloc_words (h + fst b) bs"

subsection \<open>Frames\<close>

text \<open>
  \<open>eq_except s s' A\<close>: the words of \<open>s'\<close> are those of \<open>s\<close> except at the addresses in \<open>A\<close>;
  \<open>keeps s s' P\<close>: the words at the addresses in \<open>P\<close> are the same.
\<close>

definition eq_except :: "state \<Rightarrow> state \<Rightarrow> nat set \<Rightarrow> bool" where
  "eq_except s s' A = (\<forall>q. va q \<longrightarrow> q \<notin> A \<longrightarrow> rd s' q = rd s q)"

definition keeps :: "state \<Rightarrow> state \<Rightarrow> nat set \<Rightarrow> bool" where
  "keeps s s' P = (\<forall>q \<in> P. va q \<longrightarrow> rd s' q = rd s q)"

subsection \<open>The free-list table\<close>

text \<open>
  A free block stores its \<open>prev\<close> link in its first payload word and its \<open>next\<close> link in
  the second (\<^verbatim>\<open>PREVF\<close>, \<^verbatim>\<open>NEXTF\<close>). \<open>dlseg s p h xs e\<close>: following \<open>next\<close> from \<open>h\<close> visits
  exactly the payload pointers \<open>xs\<close> and arrives at \<open>e\<close>, and every \<open>prev\<close> link points back
  (the first one to \<open>p\<close>). \<open>table_ok s Ls\<close>: for each of the eleven classes \<open>i\<close>, the list
  starting at \<open>seg s i\<close> is \<open>Ls i\<close>, null-terminated on both sides and without
  repetition, and no block is in two classes; \<open>reg Ls\<close> is the set of registered blocks.
\<close>

definition cell :: "nat \<Rightarrow> bool" where
  "cell x = (16 dvd x \<and> 0 < x \<and> x + 16 \<le> 2 ^ 64)"

definition cells :: "nat set \<Rightarrow> nat set" where
  "cells X = X \<union> (\<lambda>x. x + 8) ` X"

fun dlseg :: "state \<Rightarrow> ptr \<Rightarrow> ptr \<Rightarrow> nat list \<Rightarrow> ptr \<Rightarrow> bool" where
  "dlseg s p h [] e = (h = e)"
| "dlseg s p h (x # xs) e =
     (h = of_nat x \<and> rd s x = p \<and> dlseg s (of_nat x) (rd s (x + 8)) xs e)"

fun lastp :: "ptr \<Rightarrow> nat list \<Rightarrow> ptr" where
  "lastp p [] = p"
| "lastp p (x # xs) = lastp (of_nat x) xs"

definition reg :: "(nat \<Rightarrow> nat list) \<Rightarrow> nat set" where
  "reg Ls = (\<Union>i \<in> {..<11}. set (Ls i))"

definition table_ok :: "state \<Rightarrow> (nat \<Rightarrow> nat list) \<Rightarrow> bool" where
  "table_ok s Ls =
     ((\<forall>i<11. dlseg s 0 (seg s i) (Ls i) 0 \<and> distinct (Ls i) \<and> (\<forall>x \<in> set (Ls i). cell x))
      \<and> (\<forall>i<11. \<forall>j<11. i \<noteq> j \<longrightarrow> set (Ls i) \<inter> set (Ls j) = {}))"

text \<open>
  The two exits of \<^verbatim>\<open>delete\<close>: the body of the loop at the class \<open>i\<close> whose head is \<open>bp\<close>,
  and the code after the loop.
\<close>

definition delete_head :: "state \<Rightarrow> ptr \<Rightarrow> nat \<Rightarrow> state" where
  "delete_head s bp i =
     (if PREVF s bp = 0 \<and> NEXTF s bp \<noteq> 0 then
        (let s1 = PUT s (NEXTF s bp) 0
         in s1\<lparr>seg := (seg s1)(i := NEXTF s1 bp)\<rparr>)
      else s\<lparr>seg := (seg s)(i := 0)\<rparr>)"

definition delete_splice :: "state \<Rightarrow> ptr \<Rightarrow> state" where
  "delete_splice s bp =
     (if PREVF s bp \<noteq> 0 \<and> NEXTF s bp = 0 then
        PUT s (PREVF s bp + WSIZE) 0
      else
        (let s1 = PUT s (NEXTF s bp) (PREVF s bp)
         in PUT s1 (PREVF s1 bp + WSIZE) (NEXTF s1 bp)))"

subsection \<open>The heap invariant\<close>

text \<open>
  \<^verbatim>\<open>mm_init\<close> leaves \<open>heap_listp\<close> at the payload pointer of the first block; \<open>hd0\<close> is the
  address of that block's header, and the word before it is padding that reads as a
  footer of size 0 (which is how \<^verbatim>\<open>coalesce\<close> recognises the first block: \<^verbatim>\<open>PREV_BLKP(bp)\<close>
  is then \<open>bp\<close> itself). \<open>layout s bs\<close>: the blocks \<open>bs\<close> fill the heap from \<open>hd0 s\<close> up to
  the epilogue header, a word \<open>PACK 0 1\<close> that is the last word below \<open>mem_brk\<close>.
  \<open>heap_ok s bs Ls\<close>: the layout holds, the table is well formed, the registered blocks
  are exactly the free blocks, and no two neighbours are both free.
\<close>

definition hd0 :: "state \<Rightarrow> nat" where
  "hd0 s = unat (heap_listp s) - 8"

definition layout :: "state \<Rightarrow> block list \<Rightarrow> bool" where
  "layout s bs =
     (16 \<le> unat (heap_listp s) \<and> 16 dvd unat (heap_listp s)
      \<and> rd s (hd0 s - 8) AND NOT 0xf = 0
      \<and> sizes_ok bs \<and> tags s (hd0 s) bs
      \<and> unat (mem_brk s) = hd0 s + total bs + 8
      \<and> rd s (hd0 s + total bs) = PACK 0 1)"

definition heap_ok :: "state \<Rightarrow> block list \<Rightarrow> (nat \<Rightarrow> nat list) \<Rightarrow> bool" where
  "heap_ok s bs Ls =
     (layout s bs \<and> table_ok s Ls \<and> reg Ls = set (free_bps (hd0 s) bs) \<and> no_adj_free bs)"

definition heap_but :: "state \<Rightarrow> block list \<Rightarrow> (nat \<Rightarrow> nat list) \<Rightarrow> nat \<Rightarrow> bool" where
  "heap_but s bs Ls x =
     (layout s bs \<and> table_ok s Ls \<and> x \<in> set (free_bps (hd0 s) bs) \<and> x \<notin> reg Ls
      \<and> insert x (reg Ls) = set (free_bps (hd0 s) bs) \<and> no_adj_free bs)"

text \<open>
  \<open>heap_pre s xs sz ys Ls\<close> is the heap as \<^verbatim>\<open>coalesce\<close> meets it: the block of size \<open>sz\<close>
  between \<open>xs\<close> and \<open>ys\<close> has been marked free but is in no list yet, and it is the only
  block that may have a free neighbour. \<open>coalesced xs sz ys\<close> is the sequence of blocks
  after the block has been merged with its free neighbours.
\<close>

definition coalesced :: "block list \<Rightarrow> nat \<Rightarrow> block list \<Rightarrow> block list" where
  "coalesced xs sz ys =
     (let p = (xs \<noteq> [] \<and> \<not> snd (last xs));
          n = (ys \<noteq> [] \<and> \<not> snd (hd ys))
      in (if p then butlast xs else xs)
         @ ((if p then fst (last xs) else 0) + sz + (if n then fst (hd ys) else 0), False)
         # (if n then tl ys else ys))"

definition heap_pre ::
  "state \<Rightarrow> block list \<Rightarrow> nat \<Rightarrow> block list \<Rightarrow> (nat \<Rightarrow> nat list) \<Rightarrow> bool" where
  "heap_pre s xs sz ys Ls =
     (layout s (xs @ (sz, False) # ys) \<and> table_ok s Ls
      \<and> reg Ls = set (free_bps (hd0 s) (xs @ (sz, True) # ys))
      \<and> no_adj_free (xs @ (sz, True) # ys))"

subsection \<open>First fit\<close>

text \<open>
  \<open>first_fit s a L\<close> is the first payload pointer of the list \<open>L\<close> whose block has at least
  \<open>a\<close> bytes, and null if there is none.
\<close>

definition fits :: "state \<Rightarrow> size_t \<Rightarrow> nat \<Rightarrow> bool" where
  "fits s a x = (a \<le> GET_SIZE s (HDRP (of_nat x)))"

definition first_fit :: "state \<Rightarrow> size_t \<Rightarrow> nat list \<Rightarrow> ptr" where
  "first_fit s a L = (case find (fits s a) L of None \<Rightarrow> 0 | Some x \<Rightarrow> of_nat x)"

subsection \<open>Allocated blocks\<close>

text \<open>
  \<open>alloc_blks h bs\<close> is the set of the allocated blocks of the sequence \<open>bs\<close> that starts
  at the header address \<open>h\<close>, each as the pair of its payload pointer and its size.
\<close>

fun alloc_blks :: "nat \<Rightarrow> block list \<Rightarrow> (nat \<times> nat) set" where
  "alloc_blks h [] = {}"
| "alloc_blks h (b # bs) =
     (if snd b then {(h + 8, fst b)} else {}) \<union> alloc_blks (h + fst b) bs"

subsection \<open>The adjusted size\<close>

text \<open>
  The adjusted size of a request of \<open>n\<close> bytes as the specification words it: \<open>n\<close> plus
  the 16 bytes of header and footer, rounded up to the next multiple of 16, and at
  least 32.
\<close>

definition asize_of :: "nat \<Rightarrow> nat" where
  "asize_of n = max 32 (16 * ((n + 16 + 15) div 16))"

subsection \<open>The tables of the concrete heaps\<close>

text \<open>
  \<open>lists1\<close> is the table of \<open>heap1\<close>: the block at 4112 alone in class 4. \<open>heap2\<close> is the
  state that \<^verbatim>\<open>malloc(1)\<close> leaves on \<open>heap1\<close>: an allocated block of 32 bytes with payload
  at 4112, followed by a free block of 224 bytes with payload at 4144, which is alone
  in class 3 (\<open>lists2\<close>).
\<close>

definition lists1 :: "nat \<Rightarrow> nat list" where
  "lists1 = (\<lambda>_. [])(4 := [4112])"

definition heap2 :: state where
  "heap2 = \<lparr>mem = store64 (store64 (store64 (store64 (store64 (store64
                    (mem heap1) 4104 33) 4128 33) 4136 224) 4352 224) 4152 0) 4144 0,
         seg = (\<lambda>_. 0)(3 := 4144),
         heap_listp = 4112, free_list = 0, mem_brk = 4368, mem_max_addr = 8192\<rparr>"

definition lists2 :: "nat \<Rightarrow> nat list" where
  "lists2 = (\<lambda>_. [])(3 := [4144])"

subsection \<open>A heap with three blocks in one list\<close>

text \<open>
  The states of a run on \<open>heap1\<close>: \<^verbatim>\<open>malloc(48)\<close>, \<^verbatim>\<open>malloc(1)\<close>, \<^verbatim>\<open>malloc(48)\<close>, \<^verbatim>\<open>malloc(1)\<close>,
  \<^verbatim>\<open>malloc(48)\<close> fill the 256 bytes with blocks of 64, 32, 64, 32 and 64 bytes (payloads at
  4112, 4176, 4208, 4272, 4304); then the three blocks of 64 bytes are freed, first to
  last. Each state is the one before with the words that the call wrote. In \<open>heap3\<close> the
  list of class 2 is 4304, 4208, 4112 (\<open>lists3\<close>).
\<close>

definition heap_a :: state where
  "heap_a = \<lparr>mem = store64 (store64 (store64 (store64 (store64 (store64
                    (mem heap1) 4104 65) 4160 65) 4168 192) 4352 192) 4184 0) 4176 0,
         seg = (\<lambda>_. 0)(3 := 4176),
         heap_listp = 4112, free_list = 0, mem_brk = 4368, mem_max_addr = 8192\<rparr>"

definition heap_b :: state where
  "heap_b = \<lparr>mem = store64 (store64 (store64 (store64 (store64 (store64
                    (mem heap_a) 4168 33) 4192 33) 4200 160) 4352 160) 4216 0) 4208 0,
         seg = (\<lambda>_. 0)(3 := 4208),
         heap_listp = 4112, free_list = 0, mem_brk = 4368, mem_max_addr = 8192\<rparr>"

definition heap_c :: state where
  "heap_c = \<lparr>mem = store64 (store64 (store64 (store64 (store64 (store64
                    (mem heap_b) 4200 65) 4256 65) 4264 96) 4352 96) 4280 0) 4272 0,
         seg = (\<lambda>_. 0)(2 := 4272),
         heap_listp = 4112, free_list = 0, mem_brk = 4368, mem_max_addr = 8192\<rparr>"

definition heap_d :: state where
  "heap_d = \<lparr>mem = store64 (store64 (store64 (store64 (store64 (store64
                    (mem heap_c) 4264 33) 4288 33) 4296 64) 4352 64) 4312 0) 4304 0,
         seg = (\<lambda>_. 0)(2 := 4304),
         heap_listp = 4112, free_list = 0, mem_brk = 4368, mem_max_addr = 8192\<rparr>"

definition heap_e :: state where
  "heap_e = \<lparr>mem = store64 (store64
                    (mem heap_d) 4296 65) 4352 65,
         seg = (\<lambda>_. 0),
         heap_listp = 4112, free_list = 0, mem_brk = 4368, mem_max_addr = 8192\<rparr>"

definition heap_f :: state where
  "heap_f = \<lparr>mem = store64 (store64 (store64 (store64
                    (mem heap_e) 4104 64) 4160 64) 4120 0) 4112 0,
         seg = (\<lambda>_. 0)(2 := 4112),
         heap_listp = 4112, free_list = 0, mem_brk = 4368, mem_max_addr = 8192\<rparr>"

definition heap_g :: state where
  "heap_g = \<lparr>mem = store64 (store64 (store64 (store64 (store64
                    (mem heap_f) 4200 64) 4256 64) 4216 4112) 4112 4208) 4208 0,
         seg = (\<lambda>_. 0)(2 := 4208),
         heap_listp = 4112, free_list = 0, mem_brk = 4368, mem_max_addr = 8192\<rparr>"

definition heap3 :: state where
  "heap3 = \<lparr>mem = store64 (store64 (store64 (store64 (store64
                    (mem heap_g) 4296 64) 4352 64) 4312 4208) 4208 4304) 4304 0,
         seg = (\<lambda>_. 0)(2 := 4304),
         heap_listp = 4112, free_list = 0, mem_brk = 4368, mem_max_addr = 8192\<rparr>"

definition lists3 :: "nat \<Rightarrow> nat list" where
  "lists3 = (\<lambda>_. [])(2 := [4304, 4208, 4112])"

section \<open>Loads and stores\<close>

lemma bit_load64:
  "bit (load64 m p) n = (n < 64 \<and> bit (m (p + of_nat (n div 8))) (n mod 8))"
proof (cases "n < 64")
  case True
  then have d: "n div 8 \<in> {0,1,2,3,4,5,6,7}" by auto
  have "bit (load64 m p) n =
     bit (rev [m (p + 7), m (p + 6), m (p + 5), m (p + 4), m (p + 3), m (p + 2), m (p + 1), m p]
            ! (n div 8)) (n mod 8)"
    unfolding load64_def word_rcat_def comp_def
    using True by (simp only: bit_word_of_int_iff bit_horner_sum_uint_exp_iff) auto
  also have "\<dots> = bit (m (p + of_nat (n div 8))) (n mod 8)"
    using d by auto
  finally show ?thesis using True by simp
next
  case False
  then show ?thesis by (auto dest: bit_imp_le_length)
qed

lemma load64_cong:
  assumes "\<And>k. k < 8 \<Longrightarrow> m1 (q + of_nat k) = m2 (q + of_nat k)"
  shows "load64 m1 q = load64 m2 q"
proof (rule bit_word_eqI)
  fix n assume "n < LENGTH(64)"
  then have "n div 8 < 8" by simp
  then show "bit (load64 m1 q) n = bit (load64 m2 q) n"
    by (simp add: bit_load64 assms)
qed

lemma unat_of_nat_small: "k < 8 \<Longrightarrow> unat (of_nat k :: 64 word) = k"
  by (simp add: unat_of_nat)

lemma of_nat_small_less: "k < 8 \<Longrightarrow> (of_nat k :: 64 word) < 8"
  by (simp add: word_less_nat_alt unat_of_nat_small)

lemma load64_store64_same: "load64 (store64 m p v) p = v"
proof (rule bit_word_eqI)
  fix n assume n: "n < LENGTH(64)"
  then have k: "n div 8 < 8" by simp
  have "8 * (n div 8) + n mod 8 = n" by simp
  then show "bit (load64 (store64 m p v) p) n = bit v n"
    using n k by (simp add: bit_load64 store64_def of_nat_small_less unat_of_nat_small bit_simps)
qed

lemma store64_outside: "8 \<le> a - p \<Longrightarrow> store64 m p v a = m a"
  by (auto simp add: store64_def)

lemma disj_offset_word:
  fixes p q w :: "64 word"
  shows "8 \<le> q - p \<Longrightarrow> 8 \<le> p - q \<Longrightarrow> w < 8 \<Longrightarrow> 8 \<le> q + w - p"
  by unat_arith

lemma disj_offset:
  fixes p q :: "64 word"
  shows "8 \<le> q - p \<Longrightarrow> 8 \<le> p - q \<Longrightarrow> k < 8 \<Longrightarrow> 8 \<le> q + of_nat k - p"
  by (rule disj_offset_word) (simp_all add: of_nat_small_less)

lemma load64_store64_disj:
  "8 \<le> q - p \<Longrightarrow> 8 \<le> p - q \<Longrightarrow> load64 (store64 m p v) q = load64 m q"
  by (rule load64_cong) (simp add: store64_outside disj_offset)

lemma load64_zero: "load64 (\<lambda>_. 0) p = 0"
  by (rule bit_word_eqI) (simp add: bit_load64)

lemma load64_store64:
  "q = p \<or> (8 \<le> q - p \<and> 8 \<le> p - q) \<Longrightarrow>
   load64 (store64 m p v) q = (if q = p then v else load64 m q)"
  by (auto simp: load64_store64_same load64_store64_disj)

lemma GET_PUT_same [simp]: "GET (PUT s p v) p = v"
  by (simp add: GET_def PUT_def load64_store64_same)

lemma GET_PUT_disj: "8 \<le> q - p \<Longrightarrow> 8 \<le> p - q \<Longrightarrow> GET (PUT s p v) q = GET s q"
  by (simp add: GET_def PUT_def load64_store64_disj)

lemma GET_seg_update [simp]: "GET (s\<lparr>seg := f\<rparr>) p = GET s p"
  by (simp add: GET_def)

lemma GET_brk_update [simp]: "GET (s\<lparr>mem_brk := b\<rparr>) p = GET s p"
  by (simp add: GET_def)

lemma GET_heap_listp_update [simp]: "GET (s\<lparr>heap_listp := h\<rparr>) p = GET s p"
  by (simp add: GET_def)

lemma GET_free_list_update [simp]: "GET (s\<lparr>free_list := f\<rparr>) p = GET s p"
  by (simp add: GET_def)

lemma PUT_fields [simp]:
  "seg (PUT s p v) = seg s" "heap_listp (PUT s p v) = heap_listp s"
  "free_list (PUT s p v) = free_list s" "mem_brk (PUT s p v) = mem_brk s"
  "mem_max_addr (PUT s p v) = mem_max_addr s"
  by (simp_all add: PUT_def)

lemma range_offset_word:
  fixes q dst n w :: "64 word"
  shows "n \<le> q - dst \<Longrightarrow> 8 \<le> dst - q \<Longrightarrow> w < 8 \<Longrightarrow> n \<le> q + w - dst"
  by unat_arith


lemma GET_memcpy_disj:
  "n \<le> q - dst \<Longrightarrow> 8 \<le> dst - q \<Longrightarrow> GET (memcpy s dst src n) q = GET s q"
  unfolding GET_def memcpy_def
  by (rule load64_cong) (simp add: range_offset_word of_nat_small_less leD)

section \<open>Running the code on concrete heaps\<close>

lemma PUT_rec:
  "PUT \<lparr>mem = m, seg = sg, heap_listp = h, free_list = f, mem_brk = b, mem_max_addr = mx\<rparr> p v
   = \<lparr>mem = store64 m p v, seg = sg, heap_listp = h, free_list = f, mem_brk = b,
       mem_max_addr = mx\<rparr>"
  by (simp add: PUT_def)

lemma GET_rec:
  "GET \<lparr>mem = m, seg = sg, heap_listp = h, free_list = f, mem_brk = b, mem_max_addr = mx\<rparr> p
   = load64 m p"
  by (simp add: GET_def)

lemmas codec_defs = GET_SIZE_def GET_ALLOC_def HDRP_def FTRP_def NEXT_BLKP_def PREV_BLKP_def
  NEXTF_def PREVF_def PACK_def WSIZE_def DSIZE_def CHUNKSIZE_def MAX_sz_def MIN_sz_def

lemmas eval_defs = mm_init_def mem_sbrk_def extend_heap_def codec_defs
  PUT_rec GET_rec load64_store64 load64_zero
  coalesce_def insert_blk_def iterate_def place_def malloc_def adjust_def
  find_fit_def find_fit_classes.simps find_fit_list.simps delete_def delete_loop.simps
  free_def realloc_def calloc_def

lemma init_heap0: "mm_init heap0 = (True, heap1)"
  by (simp add: heap0_def heap1_def eval_defs fun_eq_iff)

section \<open>Header words\<close>

lemma mask4: "(0xf :: 64 word) = mask 4"
  by (simp add: mask_eq_exp_minus_1)

lemma of_nat_16: "(of_nat (16 * k) :: 64 word) = push_bit 4 (of_nat k)"
  by (simp add: push_bit_eq_mult)

lemma tag_size: "16 dvd sz \<Longrightarrow> tag sz al AND NOT 0xf = of_nat sz"
  unfolding dvd_def
  apply (erule exE)
  apply (rule bit_word_eqI)
  apply (simp only: mask4 of_nat_16 tag_def PACK_def)
  apply (auto simp add: bit_simps)
  done

lemma tag_alloc: "16 dvd sz \<Longrightarrow> tag sz al AND 1 = (if al then 1 else 0)"
  unfolding dvd_def
  apply (erule exE)
  apply (rule bit_word_eqI)
  apply (simp only: of_nat_16 tag_def PACK_def)
  apply (auto simp add: bit_simps)
  done

lemma PACK_tag: "PACK (of_nat sz) 0 = tag sz False" "PACK (of_nat sz) 1 = tag sz True"
  by (simp_all add: tag_def)

section \<open>Addresses as natural numbers\<close>

lemma unat_of_nat64: "a < 2 ^ 64 \<Longrightarrow> unat (of_nat a :: 64 word) = a"
  by (simp add: unat_of_nat)

lemma of_nat_inj64:
  "a < 2 ^ 64 \<Longrightarrow> b < 2 ^ 64 \<Longrightarrow> ((of_nat a :: 64 word) = of_nat b) = (a = b)"
  by (simp add: word_of_nat_eq_iff take_bit_nat_eq_self)

lemma of_nat_sub64: "b \<le> a \<Longrightarrow> (of_nat a :: 64 word) - of_nat b = of_nat (a - b)"
  by simp

lemma ptr_plus8: "(of_nat a :: 64 word) + 8 = of_nat (a + 8)"
  by simp

lemma ptr_plus16: "(of_nat a :: 64 word) + 16 = of_nat (a + 16)"
  by simp

lemma ptr_minus8: "8 \<le> a \<Longrightarrow> (of_nat a :: 64 word) - 8 = of_nat (a - 8)"
  by simp

lemma ptr_minus16: "16 \<le> a \<Longrightarrow> (of_nat a :: 64 word) - 16 = of_nat (a - 16)"
  by simp

lemma pow64: "(2::nat) ^ 64 = 18446744073709551616"
  by simp

lemma va_le: "va a \<Longrightarrow> a + 8 \<le> 2 ^ 64"
  unfolding va_def pow64 by (elim conjE dvdE) simp

lemma word_disjoint_lt:
  fixes X Y :: "64 word"
  assumes "unat X + 8 \<le> unat Y" "unat Y + 8 \<le> 2 ^ 64"
  shows "8 \<le> Y - X \<and> 8 \<le> X - Y"
  using assms unfolding word_le_nat_alt unat_sub_if' pow64 by simp arith

lemma va_disjoint:
  assumes "va a" "va b" "a \<noteq> b"
  shows "8 \<le> (of_nat b :: 64 word) - of_nat a \<and> 8 \<le> (of_nat a :: 64 word) - of_nat b"
proof -
  have k: "\<And>x y. va x \<Longrightarrow> va y \<Longrightarrow> x < y \<Longrightarrow>
      8 \<le> (of_nat y :: 64 word) - of_nat x \<and> 8 \<le> (of_nat x :: 64 word) - of_nat y"
  proof -
    fix x y assume x: "va x" and y: "va y" and l: "x < y"
    from x y l have d: "x + 8 \<le> y" unfolding va_def by (elim conjE dvdE) simp
    have ux: "unat (of_nat x :: 64 word) = x" using x by (simp add: va_def unat_of_nat64)
    have uy: "unat (of_nat y :: 64 word) = y" using y by (simp add: va_def unat_of_nat64)
    show "8 \<le> (of_nat y :: 64 word) - of_nat x \<and> 8 \<le> (of_nat x :: 64 word) - of_nat y"
      by (rule word_disjoint_lt) (simp_all only: ux uy d va_le[OF y])
  qed
  from assms(3) consider "a < b" | "b < a" by linarith
  then show ?thesis
  proof cases
    case 1 then show ?thesis using k[OF assms(1) assms(2)] by simp
  next
    case 2 then show ?thesis using k[OF assms(2) assms(1)] by simp
  qed
qed

lemma rd_PUT: "va a \<Longrightarrow> va b \<Longrightarrow> rd (PUT s (of_nat a) v) b = (if a = b then v else rd s b)"
  using va_disjoint[of a b] by (auto simp: rd_def GET_PUT_disj)

lemma PUT_wr: "PUT s (of_nat a) v = wr s a v"
  by (simp add: wr_def)

lemma PUT_wr8: "PUT s (of_nat a + 8) v = wr s (a + 8) v"
  by (simp add: wr_def)

lemma rd_wr: "va a \<Longrightarrow> va b \<Longrightarrow> rd (wr s a v) b = (if a = b then v else rd s b)"
  by (simp add: wr_def rd_PUT)

lemma wr_fields [simp]:
  "seg (wr s a v) = seg s" "heap_listp (wr s a v) = heap_listp s"
  "free_list (wr s a v) = free_list s" "mem_brk (wr s a v) = mem_brk s"
  "mem_max_addr (wr s a v) = mem_max_addr s"
  by (simp_all add: wr_def)

section \<open>Frames and list segments\<close>

lemma rd_seg_update [simp]: "rd (s\<lparr>seg := f\<rparr>) q = rd s q"
  by (simp add: rd_def)

lemma rd_brk_update [simp]: "rd (s\<lparr>mem_brk := b\<rparr>) q = rd s q"
  by (simp add: rd_def)

lemma eq_except_refl [simp]: "eq_except s s A"
  by (simp add: eq_except_def)

lemma eq_except_trans:
  "eq_except s s' A \<Longrightarrow> eq_except s' s'' B \<Longrightarrow> eq_except s s'' (A \<union> B)"
  by (simp add: eq_except_def)

lemma eq_except_mono: "eq_except s s' A \<Longrightarrow> A \<subseteq> B \<Longrightarrow> eq_except s s' B"
  by (auto simp add: eq_except_def)

lemma eq_except_wr: "va a \<Longrightarrow> eq_except s (wr s a v) {a}"
  by (simp add: eq_except_def rd_wr)

lemma eq_except_seg: "eq_except s s' A \<Longrightarrow> eq_except s (s'\<lparr>seg := f\<rparr>) A"
  by (simp add: eq_except_def)

lemma eq_except_rd: "eq_except s s' A \<Longrightarrow> va q \<Longrightarrow> q \<notin> A \<Longrightarrow> rd s' q = rd s q"
  by (simp add: eq_except_def)

lemma cell_va: "cell x \<Longrightarrow> va x" "cell x \<Longrightarrow> va (x + 8)"
  unfolding cell_def va_def pow64 by (elim conjE dvdE, simp)+

lemma cell_nonzero: "cell x \<Longrightarrow> (of_nat x :: 64 word) \<noteq> 0"
proof -
  assume c: "cell x"
  then have "x < 2 ^ 64" "0 < x" by (simp_all add: cell_def)
  then have "((of_nat x :: 64 word) = of_nat 0) = (x = 0)"
    by (intro of_nat_inj64) simp_all
  with \<open>0 < x\<close> show ?thesis by simp
qed

lemma cell_inj: "cell x \<Longrightarrow> cell y \<Longrightarrow> ((of_nat x :: 64 word) = of_nat y) = (x = y)"
  by (rule of_nat_inj64) (simp_all add: cell_def)

lemma cell_off: "cell x \<Longrightarrow> cell y \<Longrightarrow> x + 8 \<noteq> y"
  unfolding cell_def by (elim conjE dvdE) presburger

lemma cells_iff: "q \<in> cells X = (q \<in> X \<or> (\<exists>x \<in> X. q = x + 8))"
  by (auto simp add: cells_def)

lemma dlseg_frame:
  "eq_except s s' A \<Longrightarrow> A \<inter> cells (set L) = {} \<Longrightarrow> \<forall>x \<in> set L. cell x \<Longrightarrow>
   dlseg s p h L e \<Longrightarrow> dlseg s' p h L e"
proof (induction L arbitrary: p h)
  case Nil
  then show ?case by simp
next
  case (Cons x L)
  from Cons.prems(2) have n: "x \<notin> A" "x + 8 \<notin> A" and r: "A \<inter> cells (set L) = {}"
    by (auto simp add: cells_def)
  from Cons.prems(3) have c: "cell x" and cl: "\<forall>x \<in> set L. cell x" by simp_all
  have a: "rd s' x = rd s x" "rd s' (x + 8) = rd s (x + 8)"
    using Cons.prems(1) n cell_va[OF c] by (simp_all add: eq_except_rd)
  show ?case using Cons.prems(4) Cons.IH[OF Cons.prems(1) r cl] by (simp add: a)
qed

lemma lastp_snoc [simp]: "lastp p (xs @ [x]) = of_nat x"
  by (induction xs arbitrary: p) simp_all

lemma dlseg_append:
  "dlseg s p h (as @ bs) e = (\<exists>m. dlseg s p h as m \<and> dlseg s (lastp p as) m bs e)"
  by (induction as arbitrary: p h) auto

section \<open>The search loop of \<^verbatim>\<open>delete\<close>\<close>

lemma PREVF_rd: "PREVF s (of_nat x) = rd s x"
  by (simp add: PREVF_def rd_def)

lemma NEXTF_rd: "NEXTF s (of_nat x) = rd s (x + 8)"
  by (simp add: NEXTF_def rd_def WSIZE_def)

lemma delete_loop_miss:
  "\<forall>j<11. i \<le> j \<longrightarrow> seg s j \<noteq> bp \<Longrightarrow> delete_loop s bp i = delete_splice s bp"
proof (induction s bp i rule: delete_loop.induct)
  case (1 s bp i)
  show ?case
  proof (cases "i < 11")
    case True
    with "1.prems" have n: "bp \<noteq> seg s i" by auto
    have "delete_loop s bp (i + 1) = delete_splice s bp"
      using "1.IH"[OF True n] "1.prems" by simp
    then show ?thesis using True n by (subst delete_loop.simps) simp
  next
    case False
    then show ?thesis by (subst delete_loop.simps) (simp add: delete_splice_def)
  qed
qed

lemma delete_loop_hit:
  "k < 11 \<Longrightarrow> i \<le> k \<Longrightarrow> seg s k = bp \<Longrightarrow> \<forall>j<k. i \<le> j \<longrightarrow> seg s j \<noteq> bp \<Longrightarrow>
   delete_loop s bp i = delete_head s bp k"
proof (induction s bp i rule: delete_loop.induct)
  case (1 s bp i)
  from "1.prems" have i: "i < 11" by simp
  show ?case
  proof (cases "i = k")
    case True
    then show ?thesis using "1.prems" by (subst delete_loop.simps) (simp add: delete_head_def)
  next
    case False
    with "1.prems" have l: "i < k" by simp
    with "1.prems" have n: "bp \<noteq> seg s i" by auto
    have "delete_loop s bp (i + 1) = delete_head s bp k"
      using "1.IH"[OF i n] "1.prems" l by simp
    then show ?thesis using i n by (subst delete_loop.simps) simp
  qed
qed

lemma table_okD:
  assumes "table_ok s Ls" "i < 11"
  shows "dlseg s 0 (seg s i) (Ls i) 0" "distinct (Ls i)" "\<And>x. x \<in> set (Ls i) \<Longrightarrow> cell x"
    "\<And>j. j < 11 \<Longrightarrow> i \<noteq> j \<Longrightarrow> set (Ls i) \<inter> set (Ls j) = {}"
  using assms by (auto simp add: table_ok_def)

lemma seg_head:
  assumes "table_ok s Ls" "i < 11"
  shows "seg s i = (case Ls i of [] \<Rightarrow> 0 | x # _ \<Rightarrow> of_nat x)"
  using table_okD(1)[OF assms] by (cases "Ls i") simp_all

lemma seg_neq:
  assumes t: "table_ok s Ls" and j: "j < 11" and x: "x \<notin> set (Ls j)" and c: "cell x"
  shows "seg s j \<noteq> of_nat x"
proof (cases "Ls j")
  case Nil
  then show ?thesis using seg_head[OF t j] cell_nonzero[OF c] by simp
next
  case (Cons y ys)
  then have "cell y" "y \<noteq> x" using table_okD(3)[OF t j, of y] x by auto
  then show ?thesis using seg_head[OF t j] Cons cell_inj[OF \<open>cell y\<close> c] by simp
qed

section \<open>What \<^verbatim>\<open>delete\<close> writes\<close>

lemma cells_disjoint:
  assumes "\<forall>x \<in> X. cell x" "\<forall>y \<in> Y. cell y" "X \<inter> Y = {}"
  shows "cells X \<inter> cells Y = {}"
proof -
  { fix x y assume "x \<in> X" "y \<in> Y"
    then have "cell x" "cell y" "x \<noteq> y" using assms by auto
    then have "x \<noteq> y \<and> x + 8 \<noteq> y \<and> x \<noteq> y + 8 \<and> x + 8 \<noteq> y + 8"
      using cell_off[of x y] cell_off[of y x] by auto }
  then show ?thesis by (fastforce simp add: cells_def)
qed

lemma delete_at_head:
  assumes t: "table_ok s Ls" and i: "i < 11" and l: "Ls i = x # post"
  shows "delete s (of_nat x) = delete_head s (of_nat x) i"
proof -
  have c: "cell x" using table_okD(3)[OF t i, of x] l by simp
  have h: "seg s i = of_nat x" using seg_head[OF t i] l by simp
  have "\<forall>j<i. 0 \<le> j \<longrightarrow> seg s j \<noteq> of_nat x"
  proof (intro allI impI)
    fix j assume j: "j < i"
    then have "j < 11" "i \<noteq> j" using i by simp_all
    then have "x \<notin> set (Ls j)" using table_okD(4)[OF t i, of j] l by auto
    then show "seg s j \<noteq> of_nat x" using seg_neq[OF t \<open>j < 11\<close> _ c] by simp
  qed
  then show ?thesis unfolding delete_def using delete_loop_hit[OF i _ h] by simp
qed

lemma delete_head_nil:
  assumes t: "table_ok s Ls" and i: "i < 11" and l: "Ls i = [x]"
  shows "delete s (of_nat x) = s\<lparr>seg := (seg s)(i := 0)\<rparr>"
proof -
  have "dlseg s 0 (seg s i) [x] 0" using table_okD(1)[OF t i] l by simp
  then have "rd s (x + 8) = 0" by simp
  then show ?thesis
    unfolding delete_at_head[OF t i l] by (simp add: delete_head_def NEXTF_rd)
qed

lemma delete_head_cons:
  assumes t: "table_ok s Ls" and i: "i < 11" and l: "Ls i = x # y # r"
  shows "delete s (of_nat x) = (wr s y 0)\<lparr>seg := (seg s)(i := of_nat y)\<rparr>"
proof -
  have c: "cell x" "cell y" using table_okD(3)[OF t i] l by simp_all
  have d: "dlseg s 0 (seg s i) (x # y # r) 0" using table_okD(1)[OF t i] l by simp
  then have p: "rd s x = 0" and n: "rd s (x + 8) = of_nat y" by simp_all
  have "x + 8 \<noteq> y" using cell_off[OF c] .
  then have n': "rd (wr s y 0) (x + 8) = of_nat y"
    using n c by (simp add: rd_wr cell_va)
  show ?thesis
    unfolding delete_at_head[OF t i l]
    by (simp add: delete_head_def NEXTF_rd PREVF_rd p n n' cell_nonzero[OF c(2)] Let_def PUT_wr)
qed

lemma delete_at_inner:
  assumes t: "table_ok s Ls" and i: "i < 11" and l: "Ls i = pre @ p # x # post"
  shows "delete s (of_nat x) = delete_splice s (of_nat x)"
proof -
  have c: "cell x" using table_okD(3)[OF t i, of x] l by simp
  have dist: "distinct (pre @ p # x # post)" using table_okD(2)[OF t i] l by simp
  have "\<forall>j<11. (0::nat) \<le> j \<longrightarrow> seg s j \<noteq> of_nat x"
  proof (intro allI impI)
    fix j :: nat assume j: "j < 11"
    show "seg s j \<noteq> of_nat x"
    proof (cases "j = i")
      case True
      have hd: "hd (Ls i) \<noteq> x" "hd (Ls i) \<in> set (Ls i)" using dist l by (cases pre; auto)+
      then have "cell (hd (Ls i))" using table_okD(3)[OF t i] by simp
      moreover have "seg s i = of_nat (hd (Ls i))" using seg_head[OF t i] l by (cases pre; simp)
      ultimately show ?thesis using True hd cell_inj[of "hd (Ls i)" x] c by simp
    next
      case False
      then have "x \<notin> set (Ls j)" using table_okD(4)[OF t i j] l by auto
      then show ?thesis using seg_neq[OF t j _ c] by simp
    qed
  qed
  then show ?thesis unfolding delete_def using delete_loop_miss by simp
qed

lemma dlseg_inner:
  assumes t: "table_ok s Ls" and i: "i < 11" and l: "Ls i = pre @ p # x # post"
  shows "rd s x = of_nat p" "rd s (p + 8) = of_nat x"
    "dlseg s (of_nat x) (rd s (x + 8)) post 0"
    "dlseg s 0 (seg s i) pre (of_nat p)" "rd s p = lastp 0 pre"
proof -
  have "dlseg s 0 (seg s i) (pre @ p # x # post) 0" using table_okD(1)[OF t i] l by simp
  then obtain m where "dlseg s 0 (seg s i) pre m" "dlseg s (lastp 0 pre) m (p # x # post) 0"
    unfolding dlseg_append by blast
  then show "rd s x = of_nat p" "rd s (p + 8) = of_nat x"
    "dlseg s (of_nat x) (rd s (x + 8)) post 0"
    "dlseg s 0 (seg s i) pre (of_nat p)" "rd s p = lastp 0 pre" by auto
qed

lemma delete_last:
  assumes t: "table_ok s Ls" and i: "i < 11" and l: "Ls i = pre @ [p, x]"
  shows "delete s (of_nat x) = wr s (p + 8) 0"
proof -
  have l': "Ls i = pre @ p # x # []" using l by simp
  have c: "cell p" using table_okD(3)[OF t i, of p] l by simp
  note d = dlseg_inner[OF t i l']
  from d(3) have "rd s (x + 8) = 0" by simp
  then show ?thesis
    unfolding delete_at_inner[OF t i l']
    by (simp add: delete_splice_def NEXTF_rd PREVF_rd d(1) cell_nonzero[OF c] WSIZE_def PUT_wr8)
qed

lemma delete_mid:
  assumes t: "table_ok s Ls" and i: "i < 11" and l: "Ls i = pre @ p # x # y # r"
  shows "delete s (of_nat x) = wr (wr s y (of_nat p)) (p + 8) (of_nat y)"
proof -
  have c: "cell p" "cell x" "cell y" using table_okD(3)[OF t i] l by simp_all
  have dist: "x \<noteq> y" using table_okD(2)[OF t i] l by simp
  note d = dlseg_inner[OF t i l]
  from d(3) have n: "rd s (x + 8) = of_nat y" by simp
  have "x + 8 \<noteq> y" using cell_off[OF c(2) c(3)] .
  then have a: "rd (wr s y (of_nat p)) (x + 8) = of_nat y"
    "rd (wr s y (of_nat p)) x = of_nat p"
    using n d(1) c dist by (simp_all add: rd_wr cell_va)
  show ?thesis
    unfolding delete_at_inner[OF t i l]
    by (simp add: delete_splice_def NEXTF_rd PREVF_rd d(1) n a cell_nonzero[OF c(3)]
        cell_nonzero[OF c(1)] WSIZE_def Let_def PUT_wr PUT_wr8)
qed

section \<open>\<^verbatim>\<open>delete\<close> keeps the table\<close>

lemma table_ok_update:
  assumes t: "table_ok s Ls" and i: "i < 11" and e: "eq_except s s' A"
    and a: "\<forall>j<11. j \<noteq> i \<longrightarrow> A \<inter> cells (set (Ls j)) = {} \<and> set L' \<inter> set (Ls j) = {}
                \<and> seg s' j = seg s j"
    and d: "dlseg s' 0 (seg s' i) L' 0" "distinct L'" "\<forall>x \<in> set L'. cell x"
  shows "table_ok s' (Ls(i := L'))"
  unfolding table_ok_def
proof (intro conjI allI impI)
  fix j :: nat assume j: "j < 11"
  show "dlseg s' 0 (seg s' j) ((Ls(i := L')) j) 0"
  proof (cases "j = i")
    case True then show ?thesis using d by simp
  next
    case False
    then have "dlseg s' 0 (seg s j) (Ls j) 0"
      using dlseg_frame[OF e _ _ table_okD(1)[OF t j]] a j table_okD(3)[OF t j] by blast
    then show ?thesis using False a j by simp
  qed
  show "distinct ((Ls(i := L')) j)" using d table_okD(2)[OF t j] by simp
  show "\<forall>x\<in>set ((Ls(i := L')) j). cell x" using d table_okD(3)[OF t j] by simp
next
  fix j k :: nat assume "j < 11" "k < 11" "j \<noteq> k"
  then show "set ((Ls(i := L')) j) \<inter> set ((Ls(i := L')) k) = {}"
    using a table_okD(4)[OF t, of j k] by (auto simp add: Int_commute)
qed

lemma cell_simps:
  "cell a \<Longrightarrow> cell b \<Longrightarrow> (a + 8 = b) = False"
  "cell a \<Longrightarrow> cell b \<Longrightarrow> (a = b + 8) = False"
  using cell_off[of a b] cell_off[of b a] by auto

lemma cell_plus8_notin: "cell p \<Longrightarrow> \<forall>z \<in> S. cell z \<Longrightarrow> p + 8 \<notin> S"
  using cell_off by blast

lemma delete_ok:
  assumes t: "table_ok s Ls" and i: "i < 11" and l: "Ls i = pre @ x # post"
  shows "table_ok (delete s (of_nat x)) (Ls(i := pre @ post))"
    and "eq_except s (delete s (of_nat x)) (cells (set (pre @ post)))"
    and "\<forall>j. j \<noteq> i \<longrightarrow> seg (delete s (of_nat x)) j = seg s j"
    and "heap_listp (delete s (of_nat x)) = heap_listp s"
    and "mem_brk (delete s (of_nat x)) = mem_brk s"
    and "mem_max_addr (delete s (of_nat x)) = mem_max_addr s"
proof -
  let ?s' = "delete s (of_nat x)"
  have dist: "distinct (pre @ x # post)" using table_okD(2)[OF t i] l by simp
  have cl: "\<forall>z \<in> set (pre @ x # post). cell z" using table_okD(3)[OF t i] l by simp
  have sub: "set (pre @ post) \<subseteq> set (Ls i)" using l by auto
  have oth: "\<And>A j. A \<subseteq> cells (set (Ls i)) \<Longrightarrow> j < 11 \<Longrightarrow> j \<noteq> i \<Longrightarrow>
       A \<inter> cells (set (Ls j)) = {} \<and> set (pre @ post) \<inter> set (Ls j) = {}"
  proof -
    fix A j assume A: "A \<subseteq> cells (set (Ls i))" and j: "j < 11" "j \<noteq> i"
    have "cells (set (Ls i)) \<inter> cells (set (Ls j)) = {}"
      using cells_disjoint[of "set (Ls i)" "set (Ls j)"] table_okD(3)[OF t i] table_okD(3)[OF t j(1)]
        table_okD(4)[OF t i j(1)] j(2) by blast
    moreover have "set (Ls i) \<inter> set (Ls j) = {}" using table_okD(4)[OF t i j(1)] j(2) by blast
    ultimately show "A \<inter> cells (set (Ls j)) = {} \<and> set (pre @ post) \<inter> set (Ls j) = {}"
      using A sub by blast
  qed
  have main: "table_ok ?s' (Ls(i := pre @ post)) \<and> eq_except s ?s' (cells (set (pre @ post)))
     \<and> (\<forall>j. j \<noteq> i \<longrightarrow> seg ?s' j = seg s j) \<and> heap_listp ?s' = heap_listp s
     \<and> mem_brk ?s' = mem_brk s \<and> mem_max_addr ?s' = mem_max_addr s"
  proof (cases pre rule: rev_cases)
    case Nil
    note pre = Nil
    have d0: "dlseg s 0 (seg s i) (x # post) 0" using table_okD(1)[OF t i] l pre by simp
    show ?thesis
    proof (cases post)
      case Nil
      have s': "?s' = s\<lparr>seg := (seg s)(i := 0)\<rparr>"
        using delete_head_nil[OF t i] l pre Nil by simp
      have e: "eq_except s ?s' {}" unfolding s' by (simp add: eq_except_seg)
      have "table_ok ?s' (Ls(i := []))"
        by (rule table_ok_update[OF t i e]) (simp_all add: s')
      then show ?thesis using e pre Nil by (simp add: s' cells_def)
    next
      case (Cons y r)
      have s': "?s' = (wr s y 0)\<lparr>seg := (seg s)(i := of_nat y)\<rparr>"
        using delete_head_cons[OF t i] l pre Cons by simp
      have c: "cell x" "cell y" "\<forall>z\<in>set r. cell z" using cl pre Cons by simp_all
      have dd: "x \<noteq> y" "y \<notin> set r" using dist Cons by simp_all
      have e: "eq_except s ?s' {y}" unfolding s'
        by (intro eq_except_seg eq_except_wr cell_va c)
      from d0 Cons have dr: "dlseg s (of_nat y) (rd s (y + 8)) r 0" by simp
      have fr: "{y} \<inter> cells (set r) = {}"
        using dd c by (auto simp add: cells_iff cell_simps)
      have "dlseg ?s' (of_nat y) (rd s (y + 8)) r 0"
        by (rule dlseg_frame[OF e fr c(3) dr])
      then have dn: "dlseg ?s' 0 (seg ?s' i) (y # r) 0"
        unfolding s' using c by (simp add: rd_wr cell_va)
      have "table_ok ?s' (Ls(i := y # r))"
      proof (rule table_ok_update[OF t i e _ dn])
        show "distinct (y # r)" using dist Cons by simp
        show "\<forall>x\<in>set (y # r). cell x" using c by simp
        show "\<forall>j<11. j \<noteq> i \<longrightarrow> {y} \<inter> cells (set (Ls j)) = {} \<and> set (y # r) \<inter> set (Ls j) = {}
             \<and> seg ?s' j = seg s j"
          using oth[of "{y}"] l pre Cons by (auto simp add: cells_def s')
      qed
      moreover have "eq_except s ?s' (cells (set (y # r)))"
        by (rule eq_except_mono[OF e]) (simp add: cells_def)
      ultimately show ?thesis using pre Cons by (simp add: s')
    qed
  next
    case (snoc pre' p)
    note pre = snoc
    have l': "Ls i = pre' @ p # x # post" using l pre by simp
    note d = dlseg_inner[OF t i l']
    have cp: "cell p" "cell x" "\<forall>z\<in>set pre'. cell z" using cl pre by simp_all
    have dp: "p \<notin> set pre'" "p \<noteq> x" using dist pre by simp_all
    show ?thesis
    proof (cases post)
      case Nil
      have s': "?s' = wr s (p + 8) 0"
        using delete_last[OF t i] l' Nil by simp
      have e: "eq_except s ?s' {p + 8}" unfolding s'
        by (intro eq_except_wr cell_va cp)
      have fr: "{p + 8} \<inter> cells (set pre') = {}"
        using dp cp cell_plus8_notin[OF cp(1) cp(3)] by (auto simp add: cells_iff cell_simps)
      have "dlseg ?s' 0 (seg s i) pre' (of_nat p)"
        by (rule dlseg_frame[OF e fr cp(3) d(4)])
      then have dn: "dlseg ?s' 0 (seg ?s' i) (pre' @ [p]) 0"
        unfolding dlseg_append using d(5) cp unfolding s'
        by (auto simp add: rd_wr cell_va)
      have "table_ok ?s' (Ls(i := pre' @ [p]))"
      proof (rule table_ok_update[OF t i e _ dn])
        show "distinct (pre' @ [p])" using dist pre by simp
        show "\<forall>x\<in>set (pre' @ [p]). cell x" using cp by auto
        show "\<forall>j<11. j \<noteq> i \<longrightarrow> {p + 8} \<inter> cells (set (Ls j)) = {}
             \<and> set (pre' @ [p]) \<inter> set (Ls j) = {} \<and> seg ?s' j = seg s j"
          using oth[of "{p + 8}"] l pre Nil by (auto simp add: cells_def s')
      qed
      moreover have "eq_except s ?s' (cells (set (pre' @ [p])))"
        by (rule eq_except_mono[OF e]) (simp add: cells_def)
      ultimately show ?thesis using pre Nil by (simp add: s')
    next
      case (Cons y r)
      have s': "?s' = wr (wr s y (of_nat p)) (p + 8) (of_nat y)"
        using delete_mid[OF t i] l' Cons by simp
      have c: "cell y" "\<forall>z\<in>set r. cell z" using cl Cons by simp_all
      have dd: "x \<noteq> y" "y \<notin> set r" "p \<noteq> y" "y \<notin> set pre'" "p \<notin> set r"
        using dist pre Cons by auto
      have e: "eq_except s ?s' ({y} \<union> {p + 8})" unfolding s'
        by (rule eq_except_trans[OF eq_except_wr[OF cell_va(1)[OF c(1)]]
              eq_except_wr[OF cell_va(2)[OF cp(1)]]])
      from d(3) Cons have dr: "dlseg s (of_nat y) (rd s (y + 8)) r 0" by simp
      have fr: "({y} \<union> {p + 8}) \<inter> cells (set r) = {}"
        using dd c cp cell_plus8_notin[OF cp(1) c(2)] by (auto simp add: cells_iff cell_simps)
      have fp: "({y} \<union> {p + 8}) \<inter> cells (set pre') = {}"
        using dd dp c cp cell_plus8_notin[OF cp(1) cp(3)]
        by (auto simp add: cells_iff cell_simps)
      have 1: "dlseg ?s' (of_nat y) (rd s (y + 8)) r 0"
        by (rule dlseg_frame[OF e fr c(2) dr])
      have 2: "dlseg ?s' 0 (seg s i) pre' (of_nat p)"
        by (rule dlseg_frame[OF e fp cp(3) d(4)])
      have dn: "dlseg ?s' 0 (seg ?s' i) (pre' @ p # y # r) 0"
        unfolding dlseg_append using 1 2 d(5) cp c dd unfolding s'
        by (auto simp add: rd_wr cell_va cell_simps)
      have "table_ok ?s' (Ls(i := pre' @ p # y # r))"
      proof (rule table_ok_update[OF t i e _ dn])
        show "distinct (pre' @ p # y # r)" using dist pre Cons by simp
        show "\<forall>x\<in>set (pre' @ p # y # r). cell x" using cp c by auto
        show "\<forall>j<11. j \<noteq> i \<longrightarrow> ({y} \<union> {p + 8}) \<inter> cells (set (Ls j)) = {}
             \<and> set (pre' @ p # y # r) \<inter> set (Ls j) = {} \<and> seg ?s' j = seg s j"
          using oth[of "{y} \<union> {p + 8}"] l pre Cons by (auto simp add: cells_def s')
      qed
      moreover have "eq_except s ?s' (cells (set (pre' @ p # y # r)))"
        by (rule eq_except_mono[OF e]) (auto simp add: cells_def)
      ultimately show ?thesis using pre Cons by (simp add: s')
    qed
  qed
  then show "table_ok (delete s (of_nat x)) (Ls(i := pre @ post))"
    and "eq_except s (delete s (of_nat x)) (cells (set (pre @ post)))"
    and "\<forall>j. j \<noteq> i \<longrightarrow> seg (delete s (of_nat x)) j = seg s j"
    and "heap_listp (delete s (of_nat x)) = heap_listp s"
    and "mem_brk (delete s (of_nat x)) = mem_brk s"
    and "mem_max_addr (delete s (of_nat x)) = mem_max_addr s" by simp_all
qed

section \<open>\<^verbatim>\<open>insert\<close> keeps the table\<close>

lemma iterate_le: "iterate sz < 11"
  by (simp add: iterate_def)

lemma reg_iff: "x \<in> reg Ls = (\<exists>j<11. x \<in> set (Ls j))"
  by (auto simp add: reg_def)

lemma insert_empty:
  assumes t: "table_ok s Ls" and c: "c = iterate (GET_SIZE s (HDRP (of_nat x)))" and l: "Ls c = []"
  shows "insert_blk s (of_nat x) = (wr (wr s (x + 8) 0) x 0)\<lparr>seg := (seg s)(c := of_nat x)\<rparr>"
proof -
  have "c < 11" using c iterate_le by simp
  then have "seg s c = 0" using seg_head[OF t] l by simp
  then show ?thesis using c
    by (simp add: insert_blk_def Let_def WSIZE_def PUT_wr PUT_wr8)
qed

lemma insert_cons:
  assumes t: "table_ok s Ls" and c: "c = iterate (GET_SIZE s (HDRP (of_nat x)))" and l: "Ls c = y # r"
  shows "insert_blk s (of_nat x)
     = (wr (wr (wr s (x + 8) (of_nat y)) y (of_nat x)) x 0)\<lparr>seg := (seg s)(c := of_nat x)\<rparr>"
proof -
  have c11: "c < 11" using c iterate_le by simp
  then have "seg s c = of_nat y" using seg_head[OF t] l by simp
  moreover have "cell y" using table_okD(3)[OF t c11] l by simp
  ultimately show ?thesis using c cell_nonzero[of y]
    by (simp add: insert_blk_def Let_def WSIZE_def PUT_wr PUT_wr8)
qed

lemma insert_ok:
  assumes t: "table_ok s Ls" and x: "cell x" and nx: "x \<notin> reg Ls"
    and c: "c = iterate (GET_SIZE s (HDRP (of_nat x)))"
  shows "table_ok (insert_blk s (of_nat x)) (Ls(c := x # Ls c))"
    and "eq_except s (insert_blk s (of_nat x)) ({x, x + 8} \<union> set (take 1 (Ls c)))"
    and "\<forall>j. j \<noteq> c \<longrightarrow> seg (insert_blk s (of_nat x)) j = seg s j"
    and "heap_listp (insert_blk s (of_nat x)) = heap_listp s"
    and "mem_brk (insert_blk s (of_nat x)) = mem_brk s"
    and "mem_max_addr (insert_blk s (of_nat x)) = mem_max_addr s"
proof -
  let ?s' = "insert_blk s (of_nat x)"
  have c11: "c < 11" using c iterate_le by simp
  have nxj: "\<And>j. j < 11 \<Longrightarrow> x \<notin> set (Ls j)" using nx by (auto simp add: reg_iff)
  have clc: "\<forall>z \<in> set (Ls c). cell z" using table_okD(3)[OF t c11] by simp
  have oth: "\<And>j. j < 11 \<Longrightarrow> j \<noteq> c \<Longrightarrow>
       cells (insert x (set (Ls c))) \<inter> cells (set (Ls j)) = {}
       \<and> set (x # Ls c) \<inter> set (Ls j) = {}"
  proof -
    fix j assume j: "j < 11" "j \<noteq> c"
    have d: "insert x (set (Ls c)) \<inter> set (Ls j) = {}"
      using table_okD(4)[OF t c11 j(1)] j(2) nxj[OF j(1)] by auto
    have "cells (insert x (set (Ls c))) \<inter> cells (set (Ls j)) = {}"
      by (rule cells_disjoint) (use d x clc table_okD(3)[OF t j(1)] in auto)
    then show "cells (insert x (set (Ls c))) \<inter> cells (set (Ls j)) = {}
       \<and> set (x # Ls c) \<inter> set (Ls j) = {}" using d by simp
  qed
  have main: "table_ok ?s' (Ls(c := x # Ls c))
     \<and> eq_except s ?s' ({x, x + 8} \<union> set (take 1 (Ls c)))
     \<and> (\<forall>j. j \<noteq> c \<longrightarrow> seg ?s' j = seg s j) \<and> heap_listp ?s' = heap_listp s
     \<and> mem_brk ?s' = mem_brk s \<and> mem_max_addr ?s' = mem_max_addr s"
  proof (cases "Ls c")
    case Nil
    have s': "?s' = (wr (wr s (x + 8) 0) x 0)\<lparr>seg := (seg s)(c := of_nat x)\<rparr>"
      by (rule insert_empty[OF t c Nil])
    have e: "eq_except s ?s' ({x + 8} \<union> {x})" unfolding s'
      by (rule eq_except_seg[OF eq_except_trans[OF eq_except_wr[OF cell_va(2)[OF x]]
              eq_except_wr[OF cell_va(1)[OF x]]]])
    have dn: "dlseg ?s' 0 (seg ?s' c) [x] 0"
      unfolding s' using x by (simp add: rd_wr cell_va)
    have "table_ok ?s' (Ls(c := [x]))"
    proof (rule table_ok_update[OF t c11 e _ dn])
      show "distinct [x]" by simp
      show "\<forall>z\<in>set [x]. cell z" using x by simp
      show "\<forall>j<11. j \<noteq> c \<longrightarrow> ({x + 8} \<union> {x}) \<inter> cells (set (Ls j)) = {}
             \<and> set [x] \<inter> set (Ls j) = {} \<and> seg ?s' j = seg s j"
        using oth by (auto simp add: cells_def s')
    qed
    moreover have "eq_except s ?s' ({x, x + 8} \<union> set (take 1 (Ls c)))"
      by (rule eq_except_mono[OF e]) auto
    ultimately show ?thesis using Nil by (simp add: s')
  next
    case (Cons y r)
    have s': "?s' = (wr (wr (wr s (x + 8) (of_nat y)) y (of_nat x)) x 0)
                      \<lparr>seg := (seg s)(c := of_nat x)\<rparr>"
      by (rule insert_cons[OF t c Cons])
    have cy: "cell y" "\<forall>z\<in>set r. cell z" using clc Cons by simp_all
    have dd: "x \<noteq> y" "x \<notin> set r" "y \<notin> set r"
      using nxj[OF c11] table_okD(2)[OF t c11] Cons by auto
    have e: "eq_except s ?s' (({x + 8} \<union> {y}) \<union> {x})" unfolding s'
      by (rule eq_except_seg[OF eq_except_trans[OF eq_except_trans[OF
              eq_except_wr[OF cell_va(2)[OF x]] eq_except_wr[OF cell_va(1)[OF cy(1)]]]
              eq_except_wr[OF cell_va(1)[OF x]]]])
    have d0: "dlseg s 0 (seg s c) (y # r) 0" using table_okD(1)[OF t c11] Cons by simp
    then have dr: "dlseg s (of_nat y) (rd s (y + 8)) r 0" by simp
    have fr: "(({x + 8} \<union> {y}) \<union> {x}) \<inter> cells (set r) = {}"
      using dd x cy cell_plus8_notin[OF x cy(2)] by (auto simp add: cells_iff cell_simps)
    have 1: "dlseg ?s' (of_nat y) (rd s (y + 8)) r 0"
      by (rule dlseg_frame[OF e fr cy(2) dr])
    have dn: "dlseg ?s' 0 (seg ?s' c) (x # y # r) 0"
      using 1 x cy dd unfolding s' by (auto simp add: rd_wr cell_va cell_simps)
    have "table_ok ?s' (Ls(c := x # y # r))"
    proof (rule table_ok_update[OF t c11 e _ dn])
      show "distinct (x # y # r)" using dd table_okD(2)[OF t c11] Cons by simp
      show "\<forall>z\<in>set (x # y # r). cell z" using x cy by simp
      show "\<forall>j<11. j \<noteq> c \<longrightarrow> (({x + 8} \<union> {y}) \<union> {x}) \<inter> cells (set (Ls j)) = {}
             \<and> set (x # y # r) \<inter> set (Ls j) = {} \<and> seg ?s' j = seg s j"
        using oth Cons by (auto simp add: cells_def s')
    qed
    moreover have "eq_except s ?s' ({x, x + 8} \<union> set (take 1 (Ls c)))"
      by (rule eq_except_mono[OF e]) (auto simp add: Cons)
    ultimately show ?thesis using Cons by (simp add: s')
  qed
  then show "table_ok (insert_blk s (of_nat x)) (Ls(c := x # Ls c))"
    and "eq_except s (insert_blk s (of_nat x)) ({x, x + 8} \<union> set (take 1 (Ls c)))"
    and "\<forall>j. j \<noteq> c \<longrightarrow> seg (insert_blk s (of_nat x)) j = seg s j"
    and "heap_listp (insert_blk s (of_nat x)) = heap_listp s"
    and "mem_brk (insert_blk s (of_nat x)) = mem_brk s"
    and "mem_max_addr (insert_blk s (of_nat x)) = mem_max_addr s" by simp_all
qed

section \<open>Block sequences\<close>

lemma total_simps [simp]: "total [] = 0" "total (b # bs) = fst b + total bs"
  "total (xs @ ys) = total xs + total ys"
  by (simp_all add: total_def)

lemma sizes_ok_simps [simp]: "sizes_ok []" 
  "sizes_ok (b # bs) = (32 \<le> fst b \<and> 16 dvd fst b \<and> sizes_ok bs)"
  "sizes_ok (xs @ ys) = (sizes_ok xs \<and> sizes_ok ys)"
  by (auto simp add: sizes_ok_def)

lemma tags_append: "tags s h (xs @ ys) = (tags s h xs \<and> tags s (h + total xs) ys)"
  by (induction xs arbitrary: h) (auto simp add: add.assoc)

lemma free_bps_append: "free_bps h (xs @ ys) = free_bps h xs @ free_bps (h + total xs) ys"
  by (induction xs arbitrary: h) (auto simp add: add.assoc)

lemma hf_set_append: "hf_set h (xs @ ys) = hf_set h xs \<union> hf_set (h + total xs) ys"
  by (induction xs arbitrary: h) (auto simp add: add.assoc)

lemma hf_set_range:
  "sizes_ok bs \<Longrightarrow> q \<in> hf_set h bs \<Longrightarrow> h \<le> q \<and> q + 8 \<le> h + total bs"
proof (induction bs arbitrary: h)
  case Nil then show ?case by simp
next
  case (Cons b bs)
  then have b: "32 \<le> fst b" and ok: "sizes_ok bs" by simp_all
  from Cons.prems(2) have "q = h \<or> q = h + fst b - 8 \<or> q \<in> hf_set (h + fst b) bs" by auto
  then show ?case using b Cons.IH[OF ok, of "h + fst b"] by auto
qed

lemma free_bps_range:
  "sizes_ok bs \<Longrightarrow> x \<in> set (free_bps h bs) \<Longrightarrow> h + 8 \<le> x \<and> x + 24 \<le> h + total bs"
proof (induction bs arbitrary: h)
  case Nil then show ?case by simp
next
  case (Cons b bs)
  then have b: "32 \<le> fst b" and ok: "sizes_ok bs" by simp_all
  from Cons.prems(2) have "x = h + 8 \<or> x \<in> set (free_bps (h + fst b) bs)"
    by (auto split: if_splits)
  then show ?case using b Cons.IH[OF ok, of "h + fst b"] by auto
qed

lemma sizes_dvd: "sizes_ok bs \<Longrightarrow> 16 dvd total bs"
  by (induction bs) auto

lemma dvd_16_8: "16 dvd (n::nat) \<Longrightarrow> 8 dvd n"
  by (rule dvd_trans[of 8 16 n]) simp_all

lemma hf_set_dvd: "sizes_ok bs \<Longrightarrow> 8 dvd h \<Longrightarrow> q \<in> hf_set h bs \<Longrightarrow> 8 dvd q"
proof (induction bs arbitrary: h)
  case Nil then show ?case by simp
next
  case (Cons b bs)
  then have b: "32 \<le> fst b" "16 dvd fst b" and ok: "sizes_ok bs" by simp_all
  have d8: "8 dvd fst b" using b(2) by (rule dvd_16_8)
  have 1: "8 dvd h + fst b" using Cons.prems(2) d8 by (rule dvd_add)
  have 2: "8 dvd h + fst b - 8" using 1 by (rule dvd_diff_nat) simp
  from Cons.prems(3) have "q = h \<or> q = h + fst b - 8 \<or> q \<in> hf_set (h + fst b) bs" by auto
  then show ?case using Cons.prems(2) 2 Cons.IH[OF ok 1] by blast
qed

lemma free_bps_dvd: "sizes_ok bs \<Longrightarrow> 16 dvd h + 8 \<Longrightarrow> x \<in> set (free_bps h bs) \<Longrightarrow> 16 dvd x"
proof (induction bs arbitrary: h)
  case Nil then show ?case by simp
next
  case (Cons b bs)
  then have b: "16 dvd fst b" and ok: "sizes_ok bs" by simp_all
  have e: "h + fst b + 8 = (h + 8) + fst b" by simp
  have 1: "16 dvd h + fst b + 8" unfolding e using Cons.prems(2) b by (rule dvd_add)
  from Cons.prems(3) have "x = h + 8 \<or> x \<in> set (free_bps (h + fst b) bs)"
    by (auto split: if_splits)
  then show ?case using Cons.prems(2) Cons.IH[OF ok 1] by blast
qed

lemma cells_range:
  "sizes_ok bs \<Longrightarrow> q \<in> cells (set (free_bps h bs)) \<Longrightarrow> h + 8 \<le> q \<and> q + 16 \<le> h + total bs"
proof -
  assume ok: "sizes_ok bs" and "q \<in> cells (set (free_bps h bs))"
  then obtain x where "x \<in> set (free_bps h bs)" "q = x \<or> q = x + 8"
    by (auto simp add: cells_iff)
  then show ?thesis using free_bps_range[OF ok, of x h] by auto
qed

lemma hf_cells_disjoint:
  "sizes_ok bs \<Longrightarrow> hf_set h bs \<inter> cells (set (free_bps h bs)) = {}"
proof (induction bs arbitrary: h)
  case Nil then show ?case by (simp add: cells_def)
next
  case (Cons b bs)
  then have b: "32 \<le> fst b" and ok: "sizes_ok bs" by simp_all
  have ih: "hf_set (h + fst b) bs \<inter> cells (set (free_bps (h + fst b) bs)) = {}"
    using Cons.IH[OF ok] .
  { fix q assume q: "q \<in> hf_set h (b # bs)" and c: "q \<in> cells (set (free_bps h (b # bs)))"
    from c have c': "q = h + 8 \<or> q = h + 16 \<or> q \<in> cells (set (free_bps (h + fst b) bs))"
      by (auto simp add: cells_iff split: if_splits)
    from q have q': "q = h \<or> q = h + fst b - 8 \<or> q \<in> hf_set (h + fst b) bs" by auto
    have False using q' c' b ih cells_range[OF ok, of q "h + fst b"]
        hf_set_range[OF ok, of q "h + fst b"] by auto }
  then show ?case by blast
qed

lemma tags_frame:
  assumes "eq_except s s' A" "A \<inter> hf_set h bs = {}" "sizes_ok bs" "8 dvd h" "h + total bs \<le> 2 ^ 64"
    "tags s h bs"
  shows "tags s' h bs"
  using assms
proof (induction bs arbitrary: h)
  case Nil then show ?case by simp
next
  case (Cons b bs)
  then have b: "32 \<le> fst b" "16 dvd fst b" by simp_all
  then have d8: "8 dvd fst b" by (simp add: dvd_16_8)
  have v: "va h" "va (h + fst b - 8)"
    using Cons.prems(4,5) b d8 by (simp_all add: va_def)
  have n: "h \<notin> A" "h + fst b - 8 \<notin> A" using Cons.prems(2) by auto
  have r: "rd s' h = rd s h" "rd s' (h + fst b - 8) = rd s (h + fst b - 8)"
    using eq_except_rd[OF Cons.prems(1)] v n by simp_all
  have "tags s' (h + fst b) bs"
    using Cons.prems d8 by (intro Cons.IH) (auto simp add: add.assoc)
  then show ?case using Cons.prems(6) r by simp
qed

section \<open>The layout and the table together\<close>

lemma layout_bounds:
  assumes "layout s bs"
  shows "8 \<le> hd0 s" "8 dvd hd0 s" "16 dvd hd0 s + 8" "hd0 s + total bs + 8 < 2 ^ 64"
    "hd0 s + 8 = unat (heap_listp s)"
proof -
  from assms have a: "16 \<le> unat (heap_listp s)" "16 dvd unat (heap_listp s)"
    and b: "unat (mem_brk s) = hd0 s + total bs + 8" by (simp_all add: layout_def)
  show e: "hd0 s + 8 = unat (heap_listp s)" using a by (simp add: hd0_def)
  show "8 \<le> hd0 s" using a by (simp add: hd0_def)
  show "16 dvd hd0 s + 8" using a e by simp
  have "8 dvd unat (heap_listp s)" using a(2) by (rule dvd_16_8)
  then show "8 dvd hd0 s" unfolding hd0_def by (rule dvd_diff_nat) simp
  have "unat (mem_brk s) < 2 ^ 64" using unsigned_less[of "mem_brk s"] by simp
  then show "hd0 s + total bs + 8 < 2 ^ 64" using b by simp
qed

lemma layoutD:
  assumes "layout s bs"
  shows "sizes_ok bs" "tags s (hd0 s) bs" "rd s (hd0 s - 8) AND NOT 0xf = 0"
    "rd s (hd0 s + total bs) = PACK 0 1" "unat (mem_brk s) = hd0 s + total bs + 8"
  using assms by (simp_all add: layout_def)

lemma free_cell:
  assumes l: "layout s bs" and x: "x \<in> set (free_bps (hd0 s) bs)"
  shows "cell x"
proof -
  note b = layout_bounds[OF l]
  have "16 dvd x" using free_bps_dvd[OF layoutD(1)[OF l] b(3) x] .
  moreover have "hd0 s + 8 \<le> x \<and> x + 24 \<le> hd0 s + total bs"
    using free_bps_range[OF layoutD(1)[OF l] x] .
  ultimately show ?thesis using b(4) by (simp add: cell_def)
qed

lemma hd0_eq: "heap_listp s' = heap_listp s \<Longrightarrow> hd0 s' = hd0 s"
  by (simp add: hd0_def)

lemma layout_frame:
  assumes l: "layout s bs" and e: "eq_except s s' A"
    and a: "A \<inter> hf_set (hd0 s) bs = {}" "hd0 s - 8 \<notin> A" "hd0 s + total bs \<notin> A"
    and f: "heap_listp s' = heap_listp s" "mem_brk s' = mem_brk s"
  shows "layout s' bs"
proof -
  note b = layout_bounds[OF l]
  note d = layoutD[OF l]
  have h: "hd0 s' = hd0 s" using f(1) by (rule hd0_eq)
  have t8: "8 dvd total bs" using sizes_dvd[OF d(1)] by (rule dvd_16_8)
  have "8 dvd hd0 s - 8" using b(2) by (rule dvd_diff_nat) simp
  moreover have "8 dvd hd0 s + total bs" using b(2) t8 by (rule dvd_add)
  moreover have "hd0 s - 8 < 2 ^ 64" "hd0 s + total bs < 2 ^ 64" using b(4) by linarith+
  ultimately have v: "va (hd0 s - 8)" "va (hd0 s + total bs)"
    unfolding va_def by blast+
  have le: "hd0 s + total bs \<le> 2 ^ 64" using b(4) by linarith
  have t: "tags s' (hd0 s) bs"
    by (rule tags_frame[OF e a(1) d(1) b(2) le d(2)])
  have r: "rd s' (hd0 s - 8) = rd s (hd0 s - 8)" "rd s' (hd0 s + total bs) = rd s (hd0 s + total bs)"
    using eq_except_rd[OF e v(1) a(2)] eq_except_rd[OF e v(2) a(3)] by blast+
  from l have a16: "16 \<le> unat (heap_listp s)" "16 dvd unat (heap_listp s)"
    by (simp_all add: layout_def)
  show ?thesis unfolding layout_def h f r
    using a16 d(1) t d(3) d(4) d(5) by (intro conjI)
qed

lemma layout_cells_frame:
  assumes l: "layout s bs" and e: "eq_except s s' A"
    and a: "A \<subseteq> cells (set (free_bps (hd0 s) bs))"
    and f: "heap_listp s' = heap_listp s" "mem_brk s' = mem_brk s"
  shows "layout s' bs"
proof (rule layout_frame[OF l e _ _ _ f])
  note d = layoutD[OF l]
  show "A \<inter> hf_set (hd0 s) bs = {}" using a hf_cells_disjoint[OF d(1), of "hd0 s"] by blast
  show "hd0 s - 8 \<notin> A"
  proof
    assume "hd0 s - 8 \<in> A"
    then have "hd0 s - 8 \<in> cells (set (free_bps (hd0 s) bs))" using a by blast
    then show False using cells_range[OF d(1), of "hd0 s - 8" "hd0 s"] by linarith
  qed
  show "hd0 s + total bs \<notin> A"
  proof
    assume "hd0 s + total bs \<in> A"
    then have "hd0 s + total bs \<in> cells (set (free_bps (hd0 s) bs))" using a by blast
    then show False using cells_range[OF d(1), of "hd0 s + total bs" "hd0 s"] by linarith
  qed
qed

lemma cells_mono: "X \<subseteq> Y \<Longrightarrow> cells X \<subseteq> cells Y"
  by (auto simp add: cells_def)

lemma reg_sub: "i < 11 \<Longrightarrow> set (Ls i) \<subseteq> reg Ls"
  by (auto simp add: reg_def)

lemma table_frame:
  assumes t: "table_ok s Ls" and e: "eq_except s s' A" and a: "A \<inter> cells (reg Ls) = {}"
    and f: "seg s' = seg s"
  shows "table_ok s' Ls"
  unfolding table_ok_def
proof (intro conjI allI impI)
  fix i :: nat assume i: "i < 11"
  have "cells (set (Ls i)) \<subseteq> cells (reg Ls)" using cells_mono[OF reg_sub[OF i]] .
  then have "A \<inter> cells (set (Ls i)) = {}" using a by blast
  then show "dlseg s' 0 (seg s' i) (Ls i) 0"
    unfolding f using dlseg_frame[OF e _ _ table_okD(1)[OF t i]] table_okD(3)[OF t i] by blast
  show "distinct (Ls i)" using table_okD(2)[OF t i] .
  show "\<forall>x\<in>set (Ls i). cell x" using table_okD(3)[OF t i] by blast
next
  fix i j :: nat assume "i < 11" "j < 11" "i \<noteq> j"
  then show "set (Ls i) \<inter> set (Ls j) = {}" using table_okD(4)[OF t] by blast
qed

lemma reg_insert: "c < 11 \<Longrightarrow> reg (Ls(c := x # Ls c)) = insert x (reg Ls)"
proof (rule set_eqI)
  fix z assume c: "c < 11"
  have "z \<in> reg (Ls(c := x # Ls c)) = (\<exists>j<11. z \<in> set ((Ls(c := x # Ls c)) j))"
    by (simp only: reg_iff)
  also have "\<dots> = (z = x \<or> (\<exists>j<11. z \<in> set (Ls j)))"
    using c by (auto split: if_splits)
  finally show "z \<in> reg (Ls(c := x # Ls c)) = (z \<in> insert x (reg Ls))"
    by (simp add: reg_iff)
qed

lemma heap_but_insert:
  assumes hb: "heap_but s bs Ls x" and c: "c = iterate (GET_SIZE s (HDRP (of_nat x)))"
  shows "heap_ok (insert_blk s (of_nat x)) bs (Ls(c := x # Ls c))"
    and "eq_except s (insert_blk s (of_nat x)) (cells (set (free_bps (hd0 s) bs)))"
    and "hd0 (insert_blk s (of_nat x)) = hd0 s"
    and "mem_max_addr (insert_blk s (of_nat x)) = mem_max_addr s"
proof -
  from hb have l: "layout s bs" and t: "table_ok s Ls" and x: "x \<in> set (free_bps (hd0 s) bs)"
    and nx: "x \<notin> reg Ls" and r: "insert x (reg Ls) = set (free_bps (hd0 s) bs)"
    and n: "no_adj_free bs" by (simp_all add: heap_but_def)
  have cx: "cell x" using free_cell[OF l x] .
  have c11: "c < 11" using c iterate_le by simp
  note io = insert_ok[OF t cx nx c]
  have "set (take 1 (Ls c)) \<subseteq> reg Ls" using set_take_subset[of 1 "Ls c"] reg_sub[OF c11] by blast
  then have sub: "{x, x + 8} \<union> set (take 1 (Ls c)) \<subseteq> cells (set (free_bps (hd0 s) bs))"
    using r x by (auto simp add: cells_def)
  have l': "layout (insert_blk s (of_nat x)) bs"
    by (rule layout_cells_frame[OF l io(2) sub io(4) io(5)])
  have "reg (Ls(c := x # Ls c)) = set (free_bps (hd0 (insert_blk s (of_nat x))) bs)"
    unfolding reg_insert[OF c11] hd0_eq[OF io(4)] using r .
  then show "heap_ok (insert_blk s (of_nat x)) bs (Ls(c := x # Ls c))"
    unfolding heap_ok_def using l' io(1) n by blast
  show "eq_except s (insert_blk s (of_nat x)) (cells (set (free_bps (hd0 s) bs)))"
    using eq_except_mono[OF io(2) sub] .
  show "hd0 (insert_blk s (of_nat x)) = hd0 s" using io(4) by (rule hd0_eq)
  show "mem_max_addr (insert_blk s (of_nat x)) = mem_max_addr s" using io(6) .
qed

section \<open>Adjacent free blocks\<close>

lemma naf_append:
  "no_adj_free (xs @ ys) =
     (no_adj_free xs \<and> no_adj_free ys \<and> (xs = [] \<or> ys = [] \<or> snd (last xs) \<or> snd (hd ys)))"
proof (induction xs rule: no_adj_free.induct)
  fix v :: block
  show "no_adj_free ([v] @ ys) =
     (no_adj_free [v] \<and> no_adj_free ys \<and> ([v] = [] \<or> ys = [] \<or> snd (last [v]) \<or> snd (hd ys)))"
    by (cases ys) auto
qed auto

lemma naf_Cons:
  "no_adj_free (b # bs) = (no_adj_free bs \<and> (bs = [] \<or> snd b \<or> snd (hd bs)))"
  by (cases bs) auto

lemma delete_in_heap:
  assumes t: "table_ok s Ls" and y: "y \<in> reg Ls"
  shows "\<exists>Ls'. table_ok (delete s (of_nat y)) Ls' \<and> reg Ls' = reg Ls - {y}
      \<and> eq_except s (delete s (of_nat y)) (cells (reg Ls - {y}))
      \<and> heap_listp (delete s (of_nat y)) = heap_listp s
      \<and> mem_brk (delete s (of_nat y)) = mem_brk s
      \<and> mem_max_addr (delete s (of_nat y)) = mem_max_addr s"
proof -
  from y obtain i where i: "i < 11" and yi: "y \<in> set (Ls i)" by (auto simp add: reg_iff)
  then obtain pre post where l: "Ls i = pre @ y # post" by (auto simp add: in_set_conv_decomp)
  note d = delete_ok[OF t i l]
  have dist: "distinct (pre @ y # post)" using table_okD(2)[OF t i] l by simp
  have yo: "\<And>j. j < 11 \<Longrightarrow> j \<noteq> i \<Longrightarrow> y \<notin> set (Ls j)"
    using table_okD(4)[OF t i] yi by blast
  have r: "reg (Ls(i := pre @ post)) = reg Ls - {y}"
  proof (rule set_eqI)
    fix z
    have "z \<in> reg (Ls(i := pre @ post)) = (\<exists>j<11. z \<in> set ((Ls(i := pre @ post)) j))"
      by (simp only: reg_iff)
    also have "\<dots> = ((\<exists>j<11. z \<in> set (Ls j)) \<and> z \<noteq> y)"
    proof
      assume "\<exists>j<11. z \<in> set ((Ls(i := pre @ post)) j)"
      then obtain j where j: "j < 11" "z \<in> set ((Ls(i := pre @ post)) j)" by blast
      show "(\<exists>j<11. z \<in> set (Ls j)) \<and> z \<noteq> y"
      proof (cases "j = i")
        case True
        then have "z \<in> set (pre @ post)" using j by simp
        then show ?thesis using dist l i by auto
      next
        case False
        then show ?thesis using j yo[OF j(1) False] by auto
      qed
    next
      assume a: "(\<exists>j<11. z \<in> set (Ls j)) \<and> z \<noteq> y"
      then obtain j where j: "j < 11" "z \<in> set (Ls j)" by blast
      show "\<exists>j<11. z \<in> set ((Ls(i := pre @ post)) j)"
      proof (cases "j = i")
        case True
        then have "z \<in> set (pre @ post)" using j l a by auto
        then show ?thesis using i by (intro exI[of _ i]) simp
      next
        case False
        then show ?thesis using j by (intro exI[of _ j]) simp
      qed
    qed
    finally show "z \<in> reg (Ls(i := pre @ post)) = (z \<in> reg Ls - {y})"
      by (simp add: reg_iff)
  qed
  have "set (pre @ post) \<subseteq> reg Ls - {y}" using dist l reg_sub[OF i, of Ls] by auto
  then have e: "eq_except s (delete s (of_nat y)) (cells (reg Ls - {y}))"
    using eq_except_mono[OF d(2) cells_mono] by blast
  show ?thesis using d(1) r e d(4) d(5) d(6) by blast
qed

section \<open>The codec on a laid-out heap\<close>

lemma layout_block:
  assumes l: "layout s (xs @ b # ys)" and h: "h = hd0 s + total xs"
  shows "rd s h = tag (fst b) (snd b)" "rd s (h + fst b - 8) = tag (fst b) (snd b)"
    "32 \<le> fst b" "16 dvd fst b" "8 dvd h" "16 dvd h + 8" "8 \<le> h"
    "h + fst b + total ys + 8 < 2 ^ 64"
proof -
  note d = layoutD[OF l] and b = layout_bounds[OF l]
  from d(2) show "rd s h = tag (fst b) (snd b)" "rd s (h + fst b - 8) = tag (fst b) (snd b)"
    unfolding h by (simp_all add: tags_append)
  from d(1) show "32 \<le> fst b" "16 dvd fst b" by simp_all
  from d(1) have x: "16 dvd total xs" by (simp add: sizes_dvd)
  then have "8 dvd total xs" by (rule dvd_16_8)
  with b(2) show "8 dvd h" unfolding h by (rule dvd_add)
  have "h + 8 = (hd0 s + 8) + total xs" unfolding h by simp
  then show "16 dvd h + 8" using b(3) x by (simp only: dvd_add)
  show "8 \<le> h" using b(1) h by simp
  show "h + fst b + total ys + 8 < 2 ^ 64" using b(4) h by (simp add: add.assoc)
qed

lemma layout_prev_pad:
  assumes l: "layout s (b # ys)"
  shows "rd s (hd0 s - 8) AND NOT 0xf = 0"
  using layoutD(3)[OF l] .

lemma layout_prev:
  assumes l: "layout s (xs @ p # b # ys)" and h: "h = hd0 s + total xs + fst p"
  shows "rd s (h - 8) = tag (fst p) (snd p)" "rd s (h - fst p) = tag (fst p) (snd p)"
    "32 \<le> fst p" "16 dvd fst p" "fst p + 8 \<le> h"
proof -
  note k = layout_block[OF l refl]
  have e: "h - fst p = hd0 s + total xs" "h - 8 = hd0 s + total xs + fst p - 8"
    unfolding h by simp_all
  show "rd s (h - 8) = tag (fst p) (snd p)" "rd s (h - fst p) = tag (fst p) (snd p)"
    unfolding e using k(1,2) by simp_all
  show "32 \<le> fst p" "16 dvd fst p" using k(3,4) by simp_all
  show "fst p + 8 \<le> h" using k(7) h by simp
qed

lemma layout_next_epi:
  assumes l: "layout s (xs @ [b])" and h: "h = hd0 s + total xs"
  shows "rd s (h + fst b) = PACK 0 1"
  using layoutD(4)[OF l] unfolding h by (simp add: add.assoc)

lemma layout_next:
  assumes l: "layout s (xs @ b # n # ys)" and h: "h = hd0 s + total xs"
  shows "rd s (h + fst b) = tag (fst n) (snd n)" "rd s (h + fst b + fst n - 8) = tag (fst n) (snd n)"
    "32 \<le> fst n" "16 dvd fst n"
proof -
  have l': "layout s ((xs @ [b]) @ n # ys)" using l by simp
  note k = layout_block[OF l' refl]
  show "rd s (h + fst b) = tag (fst n) (snd n)"
    "rd s (h + fst b + fst n - 8) = tag (fst n) (snd n)"
    using k(1,2) unfolding h by (simp_all add: add.assoc)
  show "32 \<le> fst n" "16 dvd fst n" using k(3,4) by simp_all
qed

lemma mac_HDRP: "x = h + 8 \<Longrightarrow> HDRP (of_nat x) = of_nat h"
  by (simp add: HDRP_def WSIZE_def)

lemma mac_size: "rd s h = tag sz al \<Longrightarrow> 16 dvd sz \<Longrightarrow> GET_SIZE s (of_nat h) = of_nat sz"
  unfolding GET_SIZE_def rd_def[symmetric] by (simp only: tag_size)

lemma mac_alloc:
  "rd s h = tag sz al \<Longrightarrow> 16 dvd sz \<Longrightarrow> GET_ALLOC s (of_nat h) = (if al then 1 else 0)"
  unfolding GET_ALLOC_def rd_def[symmetric] by (simp only: tag_alloc)

lemma mac_FTRP:
  assumes "x = h + 8" "rd s h = tag sz al" "16 dvd sz" "8 \<le> sz" "f = h + sz - 8"
  shows "FTRP s (of_nat x) = of_nat f"
proof -
  have "GET_SIZE s (HDRP (of_nat x)) = of_nat sz"
    unfolding mac_HDRP[OF assms(1)] using assms(2,3) by (rule mac_size)
  then have "FTRP s (of_nat x) = of_nat x + of_nat sz - 16" by (simp add: FTRP_def DSIZE_def)
  also have "\<dots> = of_nat f" using assms(1,4,5) by simp
  finally show ?thesis .
qed

lemma mac_NEXT:
  assumes "x = h + 8" "rd s h = tag sz al" "16 dvd sz" "y = x + sz"
  shows "NEXT_BLKP s (of_nat x) = of_nat y"
proof -
  have "GET_SIZE s (HDRP (of_nat x)) = of_nat sz"
    unfolding mac_HDRP[OF assms(1)] using assms(2,3) by (rule mac_size)
  then show ?thesis using assms(4) by (simp add: NEXT_BLKP_def HDRP_def)
qed

lemma mac_PREV:
  "x = h + 8 \<Longrightarrow> 8 \<le> h \<Longrightarrow> rd s (h - 8) = tag psz pal \<Longrightarrow> 16 dvd psz \<Longrightarrow> psz \<le> x \<Longrightarrow>
   px = x - psz \<Longrightarrow> PREV_BLKP s (of_nat x) = of_nat px"
proof -
  assume a: "x = h + 8" "8 \<le> h" "rd s (h - 8) = tag psz pal" "16 dvd psz" "psz \<le> x" "px = x - psz"
  have "(of_nat x :: 64 word) - DSIZE = of_nat (h - 8)" using a(1,2) by (simp add: DSIZE_def)
  then have "GET_SIZE s (of_nat x - DSIZE) = of_nat psz"
    using mac_size[OF a(3) a(4)] by simp
  then show ?thesis using a(5,6) by (simp add: PREV_BLKP_def)
qed

lemma mac_PREV_pad:
  "x = h + 8 \<Longrightarrow> 8 \<le> h \<Longrightarrow> rd s (h - 8) AND NOT 0xf = 0 \<Longrightarrow> PREV_BLKP s (of_nat x) = of_nat x"
proof -
  assume a: "x = h + 8" "8 \<le> h" "rd s (h - 8) AND NOT 0xf = 0"
  have "(of_nat x :: 64 word) - DSIZE = of_nat (h - 8)" using a(1,2) by (simp add: DSIZE_def)
  then have "GET_SIZE s (of_nat x - DSIZE) = 0"
    using a(3) by (simp add: GET_SIZE_def rd_def)
  then show ?thesis by (simp add: PREV_BLKP_def)
qed

lemma PACK_add: "PACK (of_nat a + of_nat b) 0 = tag (a + b) False"
  by (simp add: tag_def)

lemma PACK_add3: "PACK (of_nat a + of_nat b + of_nat c) 0 = tag (a + b + c) False"
  by (simp add: tag_def)

section \<open>Rewriting one stretch of the heap\<close>

lemma layout_replace:
  assumes l: "layout s (xs @ ms @ ys)" and h: "h = hd0 s + total xs"
    and e: "eq_except s s' A"
    and a: "A \<inter> hf_set (hd0 s) xs = {}" "A \<inter> hf_set (h + total ms) ys = {}"
       "hd0 s - 8 \<notin> A" "h + total ms + total ys \<notin> A"
    and t: "tags s' h ms'" "sizes_ok ms'" "total ms' = total ms"
    and f: "heap_listp s' = heap_listp s" "mem_brk s' = mem_brk s"
  shows "layout s' (xs @ ms' @ ys)"
proof -
  note b = layout_bounds[OF l] and d = layoutD[OF l]
  have h0: "hd0 s' = hd0 s" using f(1) by (rule hd0_eq)
  have ok: "sizes_ok xs" "sizes_ok ms" "sizes_ok ys" using d(1) by simp_all
  have x8: "8 dvd total xs" "8 dvd total ms" "8 dvd total ys"
    using ok by (simp_all add: sizes_dvd dvd_16_8)
  have h8: "8 dvd h" unfolding h using b(2) x8(1) by (rule dvd_add)
  have hm8: "8 dvd h + total ms" using h8 x8(2) by (rule dvd_add)
  have tot: "total (xs @ ms @ ys) = total xs + total ms + total ys" by simp
  have lim: "h + total ms + total ys + 8 < 2 ^ 64" using b(4) unfolding h tot by simp
  have t1: "tags s' (hd0 s) xs"
  proof (rule tags_frame[OF e a(1) ok(1) b(2)])
    show "hd0 s + total xs \<le> 2 ^ 64" using lim h by simp
    show "tags s (hd0 s) xs" using d(2) by (simp add: tags_append)
  qed
  have t3: "tags s' (h + total ms) ys"
  proof (rule tags_frame[OF e a(2) ok(3) hm8])
    show "h + total ms + total ys \<le> 2 ^ 64" using lim by simp
    show "tags s (h + total ms) ys" using d(2) by (simp add: tags_append h add.assoc)
  qed
  have "8 dvd hd0 s - 8" using b(2) by (rule dvd_diff_nat) simp
  moreover have "8 dvd h + total ms + total ys" using hm8 x8(3) by (rule dvd_add)
  moreover have "hd0 s - 8 < 2 ^ 64" "h + total ms + total ys < 2 ^ 64" using lim h by linarith+
  ultimately have v: "va (hd0 s - 8)" "va (h + total ms + total ys)"
    unfolding va_def by blast+
  have r: "rd s' (hd0 s - 8) = rd s (hd0 s - 8)"
    "rd s' (h + total ms + total ys) = rd s (h + total ms + total ys)"
    using eq_except_rd[OF e v(1) a(3)] eq_except_rd[OF e v(2) a(4)] by blast+
  have e1: "hd0 s + total (xs @ ms' @ ys) = h + total ms + total ys"
    "hd0 s + total (xs @ ms @ ys) = h + total ms + total ys"
    unfolding h using t(3) by simp_all
  from l have a16: "16 \<le> unat (heap_listp s)" "16 dvd unat (heap_listp s)"
    by (simp_all add: layout_def)
  have tg: "tags s' (hd0 s) (xs @ ms' @ ys)"
    using t1 t(1) t3 unfolding tags_append h t(3) by (simp add: add.assoc)
  have sk: "sizes_ok (xs @ ms' @ ys)" using ok t(2) by simp
  have ep: "rd s' (hd0 s + total (xs @ ms' @ ys)) = PACK 0 1"
    unfolding e1 r using d(4) unfolding e1 .
  have br: "unat (mem_brk s) = hd0 s + total (xs @ ms' @ ys) + 8"
    using d(5) unfolding e1 .
  show ?thesis unfolding layout_def h0 f r(1)
    using a16 d(3) sk tg br ep by (intro conjI)
qed

lemma total_ge: "sizes_ok ms \<Longrightarrow> ms \<noteq> [] \<Longrightarrow> 32 \<le> total ms"
  by (cases ms) simp_all

lemma region_frame:
  assumes ok: "sizes_ok xs" "sizes_ok ys" and a: "\<forall>q \<in> A. h \<le> q \<and> q < h + m" and h: "h = h0 + total xs"
  shows "A \<inter> hf_set h0 xs = {}" "A \<inter> hf_set (h + m) ys = {}"
    "A \<inter> cells (set (free_bps h0 xs)) = {}" "A \<inter> cells (set (free_bps (h + m) ys)) = {}"
proof -
  { fix q assume "q \<in> A" "q \<in> hf_set h0 xs"
    then have False using a hf_set_range[OF ok(1), of q h0] h by fastforce }
  then show "A \<inter> hf_set h0 xs = {}" by blast
  { fix q assume "q \<in> A" "q \<in> hf_set (h + m) ys"
    then have False using a hf_set_range[OF ok(2), of q "h + m"] by fastforce }
  then show "A \<inter> hf_set (h + m) ys = {}" by blast
  { fix q assume "q \<in> A" "q \<in> cells (set (free_bps h0 xs))"
    then have False using a cells_range[OF ok(1), of q h0] h by fastforce }
  then show "A \<inter> cells (set (free_bps h0 xs)) = {}" by blast
  { fix q assume "q \<in> A" "q \<in> cells (set (free_bps (h + m) ys))"
    then have False using a cells_range[OF ok(2), of q "h + m"] by fastforce }
  then show "A \<inter> cells (set (free_bps (h + m) ys)) = {}" by blast
qed

lemma layout_retag:
  assumes l: "layout s (xs @ ms @ ys)" and ne: "ms \<noteq> []" and h: "h = hd0 s + total xs"
    and T: "T = total ms" and f: "f = h + T - 8"
  shows "layout (wr (wr s h (tag T al)) f (tag T al)) (xs @ (T, al) # ys)"
    and "eq_except s (wr (wr s h (tag T al)) f (tag T al)) {h, f}"
proof -
  let ?s' = "wr (wr s h (tag T al)) f (tag T al)"
  note b = layout_bounds[OF l] and d = layoutD[OF l]
  have ok: "sizes_ok xs" "sizes_ok ms" "sizes_ok ys" using d(1) by simp_all
  have T32: "32 \<le> T" unfolding T using total_ge[OF ok(2) ne] .
  have T16: "16 dvd T" unfolding T using sizes_dvd[OF ok(2)] .
  have x8: "8 dvd total xs" using ok(1) by (simp add: sizes_dvd dvd_16_8)
  have h8: "8 dvd h" unfolding h using b(2) x8 by (rule dvd_add)
  have "8 dvd h + T" using h8 dvd_16_8[OF T16] by (rule dvd_add)
  then have f8: "8 dvd f" unfolding f by (rule dvd_diff_nat) simp
  have lim: "h + T + total ys + 8 < 2 ^ 64" using b(4) unfolding h T by simp
  have v: "va h" "va f" unfolding va_def using h8 f8 lim f by simp_all
  have ne: "h \<noteq> f" using T32 f by simp
  show e: "eq_except s ?s' {h, f}"
    using eq_except_trans[OF eq_except_wr[OF v(1)] eq_except_wr[OF v(2)], of s "tag T al" "tag T al"]
    by (simp add: insert_commute)
  have inA: "\<forall>q \<in> {h, f}. h \<le> q \<and> q < h + total ms" using T32 f T by simp
  note rf = region_frame[OF ok(1) ok(3) inA h]
  have tg: "tags ?s' h [(T, al)]" using v ne f by (simp add: rd_wr)
  have "layout ?s' (xs @ [(T, al)] @ ys)"
  proof (rule layout_replace[OF l h e rf(1) rf(2) _ _ tg])
    show "hd0 s - 8 \<notin> {h, f}" using b(1) h f T32 by auto
    show "h + total ms + total ys \<notin> {h, f}" using T32 f T by auto
    show "sizes_ok [(T, al)]" using T32 T16 by simp
    show "total [(T, al)] = total ms" using T by simp
  qed simp_all
  then show "layout ?s' (xs @ (T, al) # ys)" by simp
qed

section \<open>The tests of \<^verbatim>\<open>coalesce\<close>\<close>

lemma free_bps_mid:
  "set (free_bps h0 (xs @ b # ys)) =
     set (free_bps h0 xs) \<union> (if snd b then {} else {h0 + total xs + 8})
     \<union> set (free_bps (h0 + total xs + fst b) ys)"
  by (simp add: free_bps_append)

lemma cells_Un: "cells (A \<union> B) = cells A \<union> cells B"
  by (auto simp add: cells_def)

lemma cells_insert: "cells (insert x A) = {x, x + 8} \<union> cells A"
  by (auto simp add: cells_def)

lemma cells_empty [simp]: "cells {} = {}"
  by (simp add: cells_def)

lemma prev_alloc_eval:
  assumes l: "layout s (xs @ b # ys)" and x: "x = hd0 s + total xs + 8"
  shows "(GET_ALLOC s (FTRP s (PREV_BLKP s (of_nat x))) \<noteq> 0 \<or> PREV_BLKP s (of_nat x) = of_nat x)
         = (xs = [] \<or> snd (last xs))"
proof (cases xs rule: rev_cases)
  case Nil
  note k = layout_block[OF l refl]
  have "PREV_BLKP s (of_nat x) = of_nat x"
    using layout_prev_pad[of s b ys] l Nil k(7) x
    by (intro mac_PREV_pad[of x "hd0 s"]) simp_all
  then show ?thesis using Nil by simp
next
  case (snoc xs' p)
  have l': "layout s (xs' @ p # b # ys)" using l snoc by simp
  define h where "h = hd0 s + total xs' + fst p"
  note k = layout_prev[OF l' h_def]
  note kb = layout_block[OF l refl]
  have xh: "x = h + 8" using x snoc h_def by simp
  define px where "px = x - fst p"
  have pv: "PREV_BLKP s (of_nat x) = of_nat px"
    using k xh kb(7) snoc h_def px_def by (intro mac_PREV[of x h s "fst p" "snd p"]) simp_all
  have lim: "x < 2 ^ 64" using kb(8) xh h_def snoc by simp
  have "px \<noteq> x" "px < 2 ^ 64" using k(3,5) xh px_def lim by simp_all
  then have ne: "(of_nat px :: 64 word) \<noteq> of_nat x" using lim by (simp add: of_nat_inj64)
  have ft: "FTRP s (of_nat px) = of_nat (h - 8)"
    using k xh px_def by (intro mac_FTRP[of px "h - fst p" s "fst p" "snd p"]) simp_all
  have "GET_ALLOC s (of_nat (h - 8)) = (if snd p then 1 else 0)"
    using k(1,4) by (rule mac_alloc)
  then show ?thesis unfolding pv ft using ne snoc by simp
qed

lemma next_alloc_eval:
  assumes l: "layout s (xs @ b # ys)" and x: "x = hd0 s + total xs + 8"
  shows "(GET_ALLOC s (HDRP (NEXT_BLKP s (of_nat x))) \<noteq> 0) = (ys = [] \<or> snd (hd ys))"
proof -
  define h where "h = hd0 s + total xs"
  note k = layout_block[OF l h_def]
  have xh: "x = h + 8" using x h_def by simp
  have nx: "NEXT_BLKP s (of_nat x) = of_nat (x + fst b)"
    using xh k(1,4) by (intro mac_NEXT[of x h s "fst b" "snd b"]) simp_all
  have hd: "HDRP (of_nat (x + fst b)) = of_nat (h + fst b)"
    using xh by (intro mac_HDRP) simp
  show ?thesis
  proof (cases ys)
    case Nil
    have "rd s (h + fst b) = PACK 0 1" using layout_next_epi[of s xs b h] l Nil h_def by simp
    then have "GET_ALLOC s (of_nat (h + fst b)) = 1"
      by (simp add: GET_ALLOC_def rd_def PACK_def)
    then show ?thesis unfolding nx hd using Nil by simp
  next
    case (Cons n ys')
    have l': "layout s (xs @ b # n # ys')" using l Cons by simp
    note kn = layout_next[OF l' h_def]
    have "GET_ALLOC s (of_nat (h + fst b)) = (if snd n then 1 else 0)"
      using kn(1,4) by (rule mac_alloc)
    then show ?thesis unfolding nx hd using Cons by simp
  qed
qed

lemma coalesce_eval:
  assumes l: "layout s (xs @ b # ys)" and x: "x = hd0 s + total xs + 8"
  shows "coalesce s (of_nat x) =
    (let bp = of_nat x; prev_alloc = (xs = [] \<or> snd (last xs));
         next_alloc = (ys = [] \<or> snd (hd ys));
         sz = GET_SIZE s (HDRP bp)
     in if prev_alloc \<and> next_alloc then (bp, insert_blk s bp)
        else if prev_alloc \<and> \<not> next_alloc then
          (let sz = sz + GET_SIZE s (HDRP (NEXT_BLKP s bp));
               s1 = delete s (NEXT_BLKP s bp);
               s2 = PUT s1 (HDRP bp) (PACK sz 0);
               s3 = PUT s2 (FTRP s2 bp) (PACK sz 0)
           in (bp, insert_blk s3 bp))
        else if \<not> prev_alloc \<and> next_alloc then
          (let sz = sz + GET_SIZE s (HDRP (PREV_BLKP s bp));
               s1 = delete s (PREV_BLKP s bp);
               s2 = PUT s1 (HDRP (PREV_BLKP s1 bp)) (PACK sz 0);
               s3 = PUT s2 (FTRP s2 bp) (PACK sz 0);
               bp = PREV_BLKP s3 bp
           in (bp, insert_blk s3 bp))
        else
          (let sz = sz + GET_SIZE s (HDRP (PREV_BLKP s bp))
                           + GET_SIZE s (FTRP s (NEXT_BLKP s bp));
               s1 = delete s (PREV_BLKP s bp);
               s2 = delete s1 (NEXT_BLKP s1 bp);
               s3 = PUT s2 (HDRP (PREV_BLKP s2 bp)) (PACK sz 0);
               s4 = PUT s3 (FTRP s3 (NEXT_BLKP s3 bp)) (PACK sz 0);
               bp = PREV_BLKP s4 bp
           in (bp, insert_blk s4 bp)))"
  unfolding coalesce_def prev_alloc_eval[OF l x] next_alloc_eval[OF l x] by (simp add: Let_def)

section \<open>Payload words of allocated blocks\<close>

lemma alloc_words_append:
  "alloc_words h (xs @ ys) = alloc_words h xs \<union> alloc_words (h + total xs) ys"
  by (induction xs arbitrary: h) (auto simp add: add.assoc)

lemma alloc_words_range:
  "sizes_ok bs \<Longrightarrow> q \<in> alloc_words h bs \<Longrightarrow> h + 8 \<le> q \<and> q + 16 \<le> h + total bs"
proof (induction bs arbitrary: h)
  case Nil then show ?case by simp
next
  case (Cons b bs)
  then have b: "32 \<le> fst b" and ok: "sizes_ok bs" by simp_all
  from Cons.prems(2) have "(h + 8 \<le> q \<and> q + 16 \<le> h + fst b) \<or> q \<in> alloc_words (h + fst b) bs"
    by (auto split: if_splits)
  then show ?case using b Cons.IH[OF ok, of "h + fst b"] by auto
qed

lemma alloc_cells_disjoint:
  "sizes_ok bs \<Longrightarrow> cells (set (free_bps h bs)) \<inter> alloc_words h bs = {}"
proof (induction bs arbitrary: h)
  case Nil then show ?case by simp
next
  case (Cons b bs)
  then have b: "32 \<le> fst b" and ok: "sizes_ok bs" by simp_all
  have ih: "cells (set (free_bps (h + fst b) bs)) \<inter> alloc_words (h + fst b) bs = {}"
    using Cons.IH[OF ok] .
  { fix q assume c: "q \<in> cells (set (free_bps h (b # bs)))" and a: "q \<in> alloc_words h (b # bs)"
    from c have c': "(\<not> snd b \<and> (q = h + 8 \<or> q = h + 16))
        \<or> q \<in> cells (set (free_bps (h + fst b) bs))"
      by (auto simp add: cells_iff split: if_splits)
    from a have a': "(snd b \<and> h + 8 \<le> q \<and> q + 16 \<le> h + fst b)
        \<or> q \<in> alloc_words (h + fst b) bs"
      by (auto split: if_splits)
    have False using c' a' b ih cells_range[OF ok, of q "h + fst b"]
        alloc_words_range[OF ok, of q "h + fst b"] by auto }
  then show ?case by blast
qed

lemma alloc_hf_disjoint:
  "sizes_ok bs \<Longrightarrow> hf_set h bs \<inter> alloc_words h bs = {}"
proof (induction bs arbitrary: h)
  case Nil then show ?case by simp
next
  case (Cons b bs)
  then have b: "32 \<le> fst b" and ok: "sizes_ok bs" by simp_all
  have ih: "hf_set (h + fst b) bs \<inter> alloc_words (h + fst b) bs = {}"
    using Cons.IH[OF ok] .
  { fix q assume c: "q \<in> hf_set h (b # bs)" and a: "q \<in> alloc_words h (b # bs)"
    from c have c': "q = h \<or> q = h + fst b - 8 \<or> q \<in> hf_set (h + fst b) bs" by auto
    from a have a': "(h + 8 \<le> q \<and> q + 16 \<le> h + fst b) \<or> q \<in> alloc_words (h + fst b) bs"
      by (auto split: if_splits)
    have False using c' a' b ih hf_set_range[OF ok, of q "h + fst b"]
        alloc_words_range[OF ok, of q "h + fst b"] by auto }
  then show ?case by blast
qed

lemma alloc_words_free: "\<forall>b \<in> set ms. \<not> snd b \<Longrightarrow> alloc_words h ms = {}"
  by (induction ms arbitrary: h) simp_all

lemma alloc_region_disjoint:
  assumes ok: "sizes_ok xs" "sizes_ok ys" and fr: "\<forall>b \<in> set ms. \<not> snd b"
    and a: "\<forall>q \<in> A. h \<le> q \<and> q < h + total ms" and h: "h = h0 + total xs"
  shows "A \<inter> alloc_words h0 (xs @ ms @ ys) = {}"
proof -
  { fix q assume q: "q \<in> A" and w: "q \<in> alloc_words h0 (xs @ ms @ ys)"
    from w have "q \<in> alloc_words h0 xs \<or> q \<in> alloc_words (h + total ms) ys"
      unfolding alloc_words_append h using alloc_words_free[OF fr] by (simp add: add.assoc)
    then have False using a q alloc_words_range[OF ok(1), of q h0]
        alloc_words_range[OF ok(2), of q "h + total ms"] h by fastforce }
  then show ?thesis by blast
qed

lemma keeps_refl [simp]: "keeps s s P"
  by (simp add: keeps_def)

lemma keeps_trans: "keeps s s' P \<Longrightarrow> keeps s' s'' P \<Longrightarrow> keeps s s'' P"
  by (simp add: keeps_def)

lemma keeps_mono: "keeps s s' P \<Longrightarrow> Q \<subseteq> P \<Longrightarrow> keeps s s' Q"
  by (auto simp add: keeps_def)

lemma keeps_eq_except: "eq_except s s' A \<Longrightarrow> A \<inter> P = {} \<Longrightarrow> keeps s s' P"
  by (auto simp add: keeps_def eq_except_def)

lemma keeps_cells:
  assumes "layout s bs" "eq_except s s' A" "A \<subseteq> cells (set (free_bps (hd0 s) bs))"
  shows "keeps s s' (alloc_words (hd0 s) bs)"
  using keeps_eq_except[OF assms(2)] alloc_cells_disjoint[OF layoutD(1)[OF assms(1)], of "hd0 s"]
    assms(3) by blast

lemma keeps_region:
  assumes l: "layout s (xs @ ms @ ys)" and fr: "\<forall>b \<in> set ms. \<not> snd b"
    and e: "eq_except s s' A" and a: "\<forall>q \<in> A. h \<le> q \<and> q < h + total ms"
    and h: "h = hd0 s + total xs"
  shows "keeps s s' (alloc_words (hd0 s) (xs @ ms @ ys))"
proof -
  have ok: "sizes_ok xs" "sizes_ok ys" using layoutD(1)[OF l] by simp_all
  show ?thesis using keeps_eq_except[OF e alloc_region_disjoint[OF ok fr a h]] .
qed

lemma alloc_words_merge:
  "\<forall>b \<in> set ms. \<not> snd b \<Longrightarrow>
   alloc_words h0 (xs @ ms @ ys) = alloc_words h0 (xs @ (total ms, False) # ys)"
  by (simp add: alloc_words_append alloc_words_free add.assoc)

section \<open>Coalescing: no merge, merge with the next block\<close>

lemma mid_sets:
  assumes "sizes_ok xs" "sizes_ok ys" "h = h0 + total xs"
  shows "\<forall>e \<in> set (free_bps h0 xs). e + 24 \<le> h" "\<forall>e \<in> set (free_bps (h + m) ys). h + m + 8 \<le> e"
  using free_bps_range[OF assms(1), of _ h0] free_bps_range[OF assms(2), of _ "h + m"] assms(3)
  by auto

lemma notin_mid:
  assumes "sizes_ok xs" "sizes_ok ys" "h = h0 + total xs" "h \<le> z" "z < h + m + 8"
  shows "z \<notin> set (free_bps h0 xs) \<union> set (free_bps (h + m) ys)"
proof
  assume "z \<in> set (free_bps h0 xs) \<union> set (free_bps (h + m) ys)"
  then consider "z \<in> set (free_bps h0 xs)" | "z \<in> set (free_bps (h + m) ys)" by blast
  then show False
  proof cases
    case 1
    then show False using free_bps_range[OF assms(1) 1] assms(3,4) by linarith
  next
    case 2
    then show False using free_bps_range[OF assms(2) 2] assms(5) by linarith
  qed
qed

lemma heap_preD:
  assumes "heap_pre s xs sz ys Ls"
  shows "layout s (xs @ (sz, False) # ys)" "table_ok s Ls"
    "reg Ls = set (free_bps (hd0 s) xs) \<union> set (free_bps (hd0 s + total xs + sz) ys)"
    "no_adj_free (xs @ (sz, True) # ys)"
  using assms by (simp_all add: heap_pre_def free_bps_mid)

lemma coalesce_none:
  assumes hp: "heap_pre s xs sz ys Ls" and pa: "xs = [] \<or> snd (last xs)"
    and na: "ys = [] \<or> snd (hd ys)" and x: "x = hd0 s + total xs + 8"
  shows "\<exists>Ls'. heap_ok (snd (coalesce s (of_nat x))) (xs @ (sz, False) # ys) Ls'"
    and "fst (coalesce s (of_nat x)) = of_nat x"
    and "keeps s (snd (coalesce s (of_nat x))) (alloc_words (hd0 s) (xs @ (sz, False) # ys))"
    and "hd0 (snd (coalesce s (of_nat x))) = hd0 s"
    and "mem_max_addr (snd (coalesce s (of_nat x))) = mem_max_addr s"
proof -
  note d = heap_preD[OF hp]
  define h where "h = hd0 s + total xs"
  have ok: "sizes_ok xs" "sizes_ok ys" using layoutD(1)[OF d(1)] by simp_all
  note ms = mid_sets(1)[OF ok h_def] mid_sets(2)[OF ok h_def, of sz]
  have ev: "coalesce s (of_nat x) = (of_nat x, insert_blk s (of_nat x))"
    unfolding coalesce_eval[OF d(1) x] using pa na by (simp add: Let_def)
  have xin: "x \<in> set (free_bps (hd0 s) (xs @ (sz, False) # ys))"
    unfolding free_bps_mid using x by simp
  note k = layout_block[OF d(1) h_def]
  have "32 \<le> sz" using k(3) by simp
  then have xn: "x \<notin> reg Ls" unfolding d(3) h_def[symmetric]
    using x h_def by (intro notin_mid[OF ok h_def]) simp_all
  have ins: "insert x (reg Ls) = set (free_bps (hd0 s) (xs @ (sz, False) # ys))"
    unfolding free_bps_mid d(3) using x by auto
  have naf: "no_adj_free (xs @ (sz, False) # ys)"
    using d(4) pa na by (simp add: naf_append naf_Cons)
  have hb: "heap_but s (xs @ (sz, False) # ys) Ls x"
    unfolding heap_but_def using d(1,2) xin xn ins naf by blast
  show "\<exists>Ls'. heap_ok (snd (coalesce s (of_nat x))) (xs @ (sz, False) # ys) Ls'"
    unfolding ev using heap_but_insert(1)[OF hb refl] by auto
  show "fst (coalesce s (of_nat x)) = of_nat x" unfolding ev by simp
  show "keeps s (snd (coalesce s (of_nat x))) (alloc_words (hd0 s) (xs @ (sz, False) # ys))"
    unfolding ev using keeps_cells[OF d(1) heap_but_insert(2)[OF hb refl] subset_refl] by simp
  show "hd0 (snd (coalesce s (of_nat x))) = hd0 s"
    unfolding ev using heap_but_insert(3)[OF hb refl] by simp
  show "mem_max_addr (snd (coalesce s (of_nat x))) = mem_max_addr s"
    unfolding ev using heap_but_insert(4)[OF hb refl] by simp
qed

lemma coalesce_next:
  assumes hp: "heap_pre s xs sz ((nsz, False) # ys) Ls" and pa: "xs = [] \<or> snd (last xs)"
    and x: "x = hd0 s + total xs + 8"
  shows "\<exists>Ls'. heap_ok (snd (coalesce s (of_nat x))) (xs @ (sz + nsz, False) # ys) Ls'"
    and "fst (coalesce s (of_nat x)) = of_nat x"
    and "keeps s (snd (coalesce s (of_nat x)))
           (alloc_words (hd0 s) (xs @ (sz, False) # (nsz, False) # ys))"
    and "hd0 (snd (coalesce s (of_nat x))) = hd0 s"
    and "mem_max_addr (snd (coalesce s (of_nat x))) = mem_max_addr s"
proof -
  note d = heap_preD[OF hp]
  define h where "h = hd0 s + total xs"
  define y where "y = x + sz"
  define f where "f = h + (sz + nsz) - 8"
  define T where "T = tag (sz + nsz) False"
  have xh: "x = h + 8" using x h_def by simp
  have ok: "sizes_ok xs" "sizes_ok ys" using layoutD(1)[OF d(1)] by simp_all
  note ms = mid_sets(1)[OF ok h_def] mid_sets(2)[OF ok h_def, of "sz + nsz"]
  note k = layout_block[OF d(1) h_def]
  note kn = layout_next[OF d(1) h_def]
  \<comment> \<open>the registered blocks\<close>
  have rg: "reg Ls = set (free_bps (hd0 s) xs) \<union> {y} \<union> set (free_bps (h + (sz + nsz)) ys)"
    unfolding d(3) using y_def xh h_def by (simp add: add_ac)
  have yr: "y \<in> reg Ls" unfolding rg by simp
  have yn: "y \<notin> set (free_bps (hd0 s) xs) \<union> set (free_bps (h + (sz + nsz)) ys)"
    using y_def xh kn(3) by (intro notin_mid[OF ok h_def]) simp_all
  \<comment> \<open>removing the successor from its list\<close>
  let ?s1 = "delete s (of_nat y)"
  from delete_in_heap[OF d(2) yr] obtain Ls1 where
    t1: "table_ok ?s1 Ls1" and r1: "reg Ls1 = reg Ls - {y}"
    and e1: "eq_except s ?s1 (cells (reg Ls - {y}))"
    and f1: "heap_listp ?s1 = heap_listp s" "mem_brk ?s1 = mem_brk s"
    and m1: "mem_max_addr ?s1 = mem_max_addr s" by blast
  have r1': "reg Ls1 = set (free_bps (hd0 s) xs) \<union> set (free_bps (h + (sz + nsz)) ys)"
    unfolding r1 rg using yn by auto
  have sub: "cells (reg Ls - {y}) \<subseteq> cells (set (free_bps (hd0 s) (xs @ (sz, False) # (nsz, False) # ys)))"
    by (rule cells_mono) (auto simp add: rg free_bps_mid h_def add.assoc)
  have l1: "layout ?s1 (xs @ (sz, False) # (nsz, False) # ys)"
    by (rule layout_cells_frame[OF d(1) e1 sub f1])
  have h1: "hd0 ?s1 = hd0 s" using f1(1) by (rule hd0_eq)
  have h1': "h = hd0 ?s1 + total xs" using h_def h1 by simp
  \<comment> \<open>rewriting header and footer\<close>
  let ?s3 = "wr (wr ?s1 h T) f T"
  have l1': "layout ?s1 (xs @ [(sz, False), (nsz, False)] @ ys)" using l1 by simp
  have l3: "layout ?s3 (xs @ (sz + nsz, False) # ys)"
    and e3: "eq_except ?s1 ?s3 {h, f}"
    using layout_retag[OF l1' _ h1', of "sz + nsz" f False] f_def T_def by simp_all
  have h3: "hd0 ?s3 = hd0 s" using h1 by (simp add: hd0_def)
  have inA: "\<forall>q \<in> {h, f}. h \<le> q \<and> q < h + (sz + nsz)" using f_def k(3) by simp
  note rf = region_frame[OF ok inA h_def]
  have t3: "table_ok ?s3 Ls1"
  proof (rule table_frame[OF t1 e3])
    show "{h, f} \<inter> cells (reg Ls1) = {}" unfolding r1' cells_Un using rf(3,4) by blast
  qed simp
  \<comment> \<open>the merged block is ready for insertion\<close>
  have xin: "x \<in> set (free_bps (hd0 ?s3) (xs @ (sz + nsz, False) # ys))"
    unfolding free_bps_mid h3 using x by simp
  have xn: "x \<notin> reg Ls1" unfolding r1'
    using xh k(3) by (intro notin_mid[OF ok h_def]) simp_all
  have ins: "insert x (reg Ls1) = set (free_bps (hd0 ?s3) (xs @ (sz + nsz, False) # ys))"
    unfolding free_bps_mid h3 r1' using x h_def by (auto simp add: add.assoc)
  have naf: "no_adj_free (xs @ (sz + nsz, False) # ys)"
    using d(4) pa by (simp add: naf_append naf_Cons)
  have hb: "heap_but ?s3 (xs @ (sz + nsz, False) # ys) Ls1 x"
    unfolding heap_but_def using l3 t3 xin xn ins naf by blast
  \<comment> \<open>what the code computes\<close>
  have nx: "NEXT_BLKP s (of_nat x) = of_nat y"
    using xh k(1,4) y_def by (intro mac_NEXT[of x h s sz False]) simp_all
  have hx: "HDRP (of_nat x) = of_nat h" using xh by (rule mac_HDRP)
  have hy: "HDRP (of_nat y) = of_nat (h + sz)" using xh y_def by (intro mac_HDRP) simp
  have sx: "GET_SIZE s (of_nat h) = of_nat sz" using k(1,4) by (intro mac_size) simp_all
  have sy: "GET_SIZE s (of_nat (h + sz)) = of_nat nsz" using kn(1,4) by (intro mac_size) simp_all
  have pk: "PACK (of_nat sz + of_nat nsz) 0 = T" unfolding T_def by (rule PACK_add)
  have v: "va h" using k(5,8) by (simp add: va_def)
  have "rd (wr ?s1 h T) h = tag (sz + nsz) False" using v T_def by (simp add: rd_wr)
  then have ft: "FTRP (wr ?s1 h T) (of_nat x) = of_nat f"
    using xh k(3,4) kn(4) f_def by (intro mac_FTRP[of x h _ "sz + nsz" False]) simp_all
  have ev: "coalesce s (of_nat x) = (of_nat x, insert_blk ?s3 (of_nat x))"
    unfolding coalesce_eval[OF d(1) x] using pa
    by (simp add: Let_def nx hx hy sx sy pk PUT_wr ft del: of_nat_add)
  show "\<exists>Ls'. heap_ok (snd (coalesce s (of_nat x))) (xs @ (sz + nsz, False) # ys) Ls'"
    unfolding ev using heap_but_insert(1)[OF hb refl] by auto
  show "fst (coalesce s (of_nat x)) = of_nat x" unfolding ev by simp
  let ?P = "alloc_words (hd0 s) (xs @ (sz, False) # (nsz, False) # ys)"
  have k1: "keeps s ?s1 ?P" using keeps_cells[OF d(1) e1 sub] .
  have fr: "\<forall>b \<in> set [(sz, False), (nsz, False)]. \<not> snd b" by simp
  have inA': "\<forall>q \<in> {h, f}. h \<le> q \<and> q < h + total [(sz, False), (nsz, False)]"
    using inA by simp
  have k2: "keeps ?s1 ?s3 ?P" using keeps_region[OF l1' fr e3 inA' h1'] unfolding h1 by simp
  have pe: "?P = alloc_words (hd0 ?s3) (xs @ (sz + nsz, False) # ys)"
    unfolding h3 using alloc_words_merge[OF fr, of "hd0 s" xs ys] by simp
  have k3: "keeps ?s3 (insert_blk ?s3 (of_nat x)) ?P"
    unfolding pe using keeps_cells[OF l3 heap_but_insert(2)[OF hb refl] subset_refl] .
  show "keeps s (snd (coalesce s (of_nat x))) ?P"
    unfolding ev using keeps_trans[OF keeps_trans[OF k1 k2] k3] by simp
  show "hd0 (snd (coalesce s (of_nat x))) = hd0 s"
    unfolding ev using heap_but_insert(3)[OF hb refl] h3 by simp
  show "mem_max_addr (snd (coalesce s (of_nat x))) = mem_max_addr s"
    unfolding ev using heap_but_insert(4)[OF hb refl] m1 by simp
qed

section \<open>Coalescing: merge with the previous block\<close>

lemma delete_layout:
  assumes l: "layout s bs" and t: "table_ok s Ls"
    and sub: "reg Ls - {y} \<subseteq> set (free_bps (hd0 s) bs)" and y: "y \<in> reg Ls"
  shows "\<exists>Ls'. table_ok (delete s (of_nat y)) Ls' \<and> reg Ls' = reg Ls - {y}
      \<and> layout (delete s (of_nat y)) bs \<and> hd0 (delete s (of_nat y)) = hd0 s
      \<and> eq_except s (delete s (of_nat y)) (cells (reg Ls - {y}))
      \<and> mem_brk (delete s (of_nat y)) = mem_brk s
      \<and> mem_max_addr (delete s (of_nat y)) = mem_max_addr s"
proof -
  let ?s1 = "delete s (of_nat y)"
  from delete_in_heap[OF t y] obtain Ls1 where
    t1: "table_ok ?s1 Ls1" and r1: "reg Ls1 = reg Ls - {y}"
    and e1: "eq_except s ?s1 (cells (reg Ls - {y}))"
    and f1: "heap_listp ?s1 = heap_listp s" "mem_brk ?s1 = mem_brk s"
       "mem_max_addr ?s1 = mem_max_addr s" by blast
  have c: "cells (reg Ls - {y}) \<subseteq> cells (set (free_bps (hd0 s) bs))"
    by (rule cells_mono) (use sub in blast)
  have l1: "layout ?s1 bs" by (rule layout_cells_frame[OF l e1 c f1(1,2)])
  have "hd0 ?s1 = hd0 s" using f1(1) by (rule hd0_eq)
  then show ?thesis using t1 r1 l1 e1 f1 by blast
qed

lemma coalesce_prev:
  assumes hp: "heap_pre s (xs @ [(psz, False)]) sz ys Ls" and na: "ys = [] \<or> snd (hd ys)"
    and x: "x = hd0 s + total xs + psz + 8"
  shows "\<exists>Ls'. heap_ok (snd (coalesce s (of_nat x))) (xs @ (psz + sz, False) # ys) Ls'"
    and "fst (coalesce s (of_nat x)) = of_nat (x - psz)"
    and "keeps s (snd (coalesce s (of_nat x)))
           (alloc_words (hd0 s) (xs @ (psz, False) # (sz, False) # ys))"
    and "hd0 (snd (coalesce s (of_nat x))) = hd0 s"
    and "mem_max_addr (snd (coalesce s (of_nat x))) = mem_max_addr s"
proof -
  note d = heap_preD[OF hp]
  define g where "g = hd0 s + total xs"
  define h where "h = g + psz"
  define px where "px = g + 8"
  define f where "f = g + (psz + sz) - 8"
  define T where "T = tag (psz + sz) False"
  have xh: "x = h + 8" using x h_def g_def by simp
  have l: "layout s (xs @ (psz, False) # (sz, False) # ys)" using d(1) by simp
  have lb: "layout s ((xs @ [(psz, False)]) @ (sz, False) # ys)" using d(1) by simp
  have ok: "sizes_ok xs" "sizes_ok ys" using layoutD(1)[OF l] by simp_all
  note kp = layout_block[OF l g_def]
  note k = layout_next[OF l g_def]
  have hr: "rd s h = tag sz False" using k(1) h_def by simp
  \<comment> \<open>the registered blocks\<close>
  have rg: "reg Ls = set (free_bps (hd0 s) xs) \<union> {px} \<union> set (free_bps (g + (psz + sz)) ys)"
    unfolding d(3) using px_def g_def by (simp add: free_bps_append add_ac)
  have pr: "px \<in> reg Ls" unfolding rg by simp
  have pn: "px \<notin> set (free_bps (hd0 s) xs) \<union> set (free_bps (g + (psz + sz)) ys)"
    using px_def kp(3) by (intro notin_mid[OF ok g_def]) simp_all
  have sub: "reg Ls \<subseteq> set (free_bps (hd0 s) (xs @ (psz, False) # (sz, False) # ys))"
    unfolding rg using px_def g_def by (auto simp add: free_bps_append add_ac)
  \<comment> \<open>removing the predecessor from its list\<close>
  let ?s1 = "delete s (of_nat px)"
  have sub': "reg Ls - {px} \<subseteq> set (free_bps (hd0 s) (xs @ (psz, False) # (sz, False) # ys))"
    using sub by blast
  from delete_layout[OF l d(2) sub' pr] obtain Ls1 where
    t1: "table_ok ?s1 Ls1" and r1: "reg Ls1 = reg Ls - {px}"
    and l1: "layout ?s1 (xs @ (psz, False) # (sz, False) # ys)"
    and h1: "hd0 ?s1 = hd0 s"
    and e1: "eq_except s ?s1 (cells (reg Ls - {px}))"
    and m1: "mem_max_addr ?s1 = mem_max_addr s" by blast
  have r1': "reg Ls1 = set (free_bps (hd0 s) xs) \<union> set (free_bps (g + (psz + sz)) ys)"
    unfolding r1 rg using pn by auto
  have g1: "g = hd0 ?s1 + total xs" using g_def h1 by simp
  note kp1 = layout_block[OF l1 g1]
  note k1 = layout_next[OF l1 g1]
  \<comment> \<open>rewriting header and footer\<close>
  let ?s3 = "wr (wr ?s1 g T) f T"
  have l1': "layout ?s1 (xs @ [(psz, False), (sz, False)] @ ys)" using l1 by simp
  have l3: "layout ?s3 (xs @ (psz + sz, False) # ys)"
    and e3: "eq_except ?s1 ?s3 {g, f}"
    using layout_retag[OF l1' _ g1, of "psz + sz" f False] f_def T_def by simp_all
  have h3: "hd0 ?s3 = hd0 s" using h1 by (simp add: hd0_def)
  have inA: "\<forall>q \<in> {g, f}. g \<le> q \<and> q < g + (psz + sz)" using f_def k(3) by simp
  note rf = region_frame[OF ok inA g_def]
  have t3: "table_ok ?s3 Ls1"
  proof (rule table_frame[OF t1 e3])
    show "{g, f} \<inter> cells (reg Ls1) = {}" unfolding r1' cells_Un using rf(3,4) by blast
  qed simp
  \<comment> \<open>the merged block is ready for insertion\<close>
  have xin: "px \<in> set (free_bps (hd0 ?s3) (xs @ (psz + sz, False) # ys))"
    unfolding free_bps_mid h3 using px_def g_def by simp
  have xn: "px \<notin> reg Ls1" unfolding r1' using pn .
  have ins: "insert px (reg Ls1) = set (free_bps (hd0 ?s3) (xs @ (psz + sz, False) # ys))"
    unfolding free_bps_mid h3 r1' using px_def g_def by (auto simp add: add.assoc)
  have naf: "no_adj_free (xs @ (psz + sz, False) # ys)"
    using d(4) na by (simp add: naf_append naf_Cons)
  have hb: "heap_but ?s3 (xs @ (psz + sz, False) # ys) Ls1 px"
    unfolding heap_but_def using l3 t3 xin xn ins naf by blast
  \<comment> \<open>what the code computes\<close>
  have xb: "x = hd0 s + total (xs @ [(psz, False)]) + 8" using x by simp
  have pe: "(xs @ [(psz, False)] = [] \<or> snd (last (xs @ [(psz, False)]))) = False" by simp
  have pxx: "px = x - psz" using px_def xh h_def by simp
  have pv: "PREV_BLKP s (of_nat x) = of_nat px"
    using xh kp(2,3,4) h_def pxx by (intro mac_PREV[of x h s psz False]) simp_all
  have pv1: "PREV_BLKP ?s1 (of_nat x) = of_nat px"
    using xh kp1(2,3,4) h_def pxx by (intro mac_PREV[of x h _ psz False]) simp_all
  have hx: "HDRP (of_nat x) = of_nat h" using xh by (rule mac_HDRP)
  have hpx: "HDRP (of_nat px) = of_nat g" using px_def by (rule mac_HDRP)
  have sx: "GET_SIZE s (of_nat h) = of_nat sz" using hr k(4) by (intro mac_size) simp_all
  have sp: "GET_SIZE s (of_nat g) = of_nat psz" using kp(1,4) by (intro mac_size) simp_all
  have pk: "PACK (of_nat sz + of_nat psz) 0 = T" unfolding T_def by (simp add: tag_def add.commute)
  have v: "va g" "va h" "va f" "va (h - 8)"
    using kp(5,8) kp(3,4) k(3,4) h_def f_def
    by (auto simp add: va_def dvd_16_8 intro!: dvd_add dvd_diff_nat)
  have ne: "g \<noteq> h" "h \<noteq> f" "h - 8 \<noteq> g" "h - 8 \<noteq> f" using kp(3) k(3) h_def f_def by simp_all
  have "rd (wr ?s1 g T) h = tag sz False" using v ne k1(1) h_def by (simp add: rd_wr)
  then have ft: "FTRP (wr ?s1 g T) (of_nat x) = of_nat f"
    using xh k(4) k(3) f_def h_def by (intro mac_FTRP[of x h _ sz False]) simp_all
  have "rd ?s3 (h - 8) = tag psz False" using v ne kp1(2) h_def by (simp add: rd_wr)
  then have pv3: "PREV_BLKP ?s3 (of_nat x) = of_nat px"
    using xh kp(3,4) h_def pxx by (intro mac_PREV[of x h _ psz False]) simp_all
  have ev: "coalesce s (of_nat x) = (of_nat px, insert_blk ?s3 (of_nat px))"
    unfolding coalesce_eval[OF lb xb] pe
    using na
    by (simp add: Let_def pv pv1 hx hpx sx sp pk PUT_wr ft pv3 del: of_nat_add)
  show "\<exists>Ls'. heap_ok (snd (coalesce s (of_nat x))) (xs @ (psz + sz, False) # ys) Ls'"
    unfolding ev using heap_but_insert(1)[OF hb refl] by auto
  show "fst (coalesce s (of_nat x)) = of_nat (x - psz)" unfolding ev pxx by simp
  let ?P = "alloc_words (hd0 s) (xs @ (psz, False) # (sz, False) # ys)"
  have c1: "cells (reg Ls - {px}) \<subseteq> cells (set (free_bps (hd0 s) (xs @ (psz, False) # (sz, False) # ys)))"
    by (rule cells_mono) (use sub in blast)
  have k1: "keeps s ?s1 ?P" using keeps_cells[OF l e1 c1] .
  have fr: "\<forall>b \<in> set [(psz, False), (sz, False)]. \<not> snd b" by simp
  have inA': "\<forall>q \<in> {g, f}. g \<le> q \<and> q < g + total [(psz, False), (sz, False)]"
    using inA by simp
  have k2: "keeps ?s1 ?s3 ?P" using keeps_region[OF l1' fr e3 inA' g1] unfolding h1 by simp
  have pe: "?P = alloc_words (hd0 ?s3) (xs @ (psz + sz, False) # ys)"
    unfolding h3 using alloc_words_merge[OF fr, of "hd0 s" xs ys] by simp
  have k3: "keeps ?s3 (insert_blk ?s3 (of_nat px)) ?P"
    unfolding pe using keeps_cells[OF l3 heap_but_insert(2)[OF hb refl] subset_refl] .
  show "keeps s (snd (coalesce s (of_nat x))) ?P"
    unfolding ev using keeps_trans[OF keeps_trans[OF k1 k2] k3] by simp
  show "hd0 (snd (coalesce s (of_nat x))) = hd0 s"
    unfolding ev using heap_but_insert(3)[OF hb refl] h3 by simp
  show "mem_max_addr (snd (coalesce s (of_nat x))) = mem_max_addr s"
    unfolding ev using heap_but_insert(4)[OF hb refl] m1 by simp
qed

section \<open>Coalescing: merge on both sides\<close>

lemma coalesce_both:
  assumes hp: "heap_pre s (xs @ [(psz, False)]) sz ((nsz, False) # ys) Ls"
    and x: "x = hd0 s + total xs + psz + 8"
  shows "\<exists>Ls'. heap_ok (snd (coalesce s (of_nat x))) (xs @ (psz + sz + nsz, False) # ys) Ls'"
    and "fst (coalesce s (of_nat x)) = of_nat (x - psz)"
    and "keeps s (snd (coalesce s (of_nat x)))
           (alloc_words (hd0 s) (xs @ (psz, False) # (sz, False) # (nsz, False) # ys))"
    and "hd0 (snd (coalesce s (of_nat x))) = hd0 s"
    and "mem_max_addr (snd (coalesce s (of_nat x))) = mem_max_addr s"
proof -
  note d = heap_preD[OF hp]
  define g where "g = hd0 s + total xs"
  define h where "h = g + psz"
  define px where "px = g + 8"
  define y where "y = x + sz"
  define f where "f = g + (psz + sz + nsz) - 8"
  define T where "T = tag (psz + sz + nsz) False"
  have xh: "x = h + 8" using x h_def g_def by simp
  have l: "layout s (xs @ (psz, False) # (sz, False) # (nsz, False) # ys)" using d(1) by simp
  have lb: "layout s ((xs @ [(psz, False)]) @ (sz, False) # (nsz, False) # ys)" using d(1) by simp
  have hb0: "h = hd0 s + total (xs @ [(psz, False)])" using h_def g_def by simp
  have ok: "sizes_ok xs" "sizes_ok ys" using layoutD(1)[OF l] by simp_all
  note kp = layout_block[OF l g_def]
  note k = layout_block[OF lb hb0]
  note kn = layout_next[OF lb hb0]
  \<comment> \<open>the registered blocks\<close>
  have rg: "reg Ls = set (free_bps (hd0 s) xs) \<union> {px, y}
       \<union> set (free_bps (g + (psz + sz + nsz)) ys)"
    unfolding d(3) using px_def g_def y_def xh h_def by (auto simp add: free_bps_append add_ac)
  have pr: "px \<in> reg Ls" "y \<in> reg Ls" unfolding rg by simp_all
  have pn: "px \<notin> set (free_bps (hd0 s) xs) \<union> set (free_bps (g + (psz + sz + nsz)) ys)"
    using px_def kp(3) by (intro notin_mid[OF ok g_def]) simp_all
  have yn: "y \<notin> set (free_bps (hd0 s) xs) \<union> set (free_bps (g + (psz + sz + nsz)) ys)"
    using y_def xh h_def kn(3) by (intro notin_mid[OF ok g_def]) simp_all
  have pny: "px \<noteq> y" using px_def y_def xh h_def kp(3) by simp
  let ?bs = "xs @ (psz, False) # (sz, False) # (nsz, False) # ys"
  have sub: "reg Ls \<subseteq> set (free_bps (hd0 s) ?bs)"
    unfolding rg using px_def g_def y_def xh h_def by (auto simp add: free_bps_append add_ac)
  \<comment> \<open>removing both neighbours from their lists\<close>
  let ?s1 = "delete s (of_nat px)"
  have sub': "reg Ls - {px} \<subseteq> set (free_bps (hd0 s) ?bs)" using sub by blast
  from delete_layout[OF l d(2) sub' pr(1)] obtain Ls1 where
    t1: "table_ok ?s1 Ls1" and r1: "reg Ls1 = reg Ls - {px}"
    and l1: "layout ?s1 ?bs" and h1: "hd0 ?s1 = hd0 s"
    and e1: "eq_except s ?s1 (cells (reg Ls - {px}))"
    and m1: "mem_max_addr ?s1 = mem_max_addr s" by blast
  have sub1: "reg Ls1 \<subseteq> set (free_bps (hd0 ?s1) ?bs)" unfolding r1 h1 using sub by blast
  have yr1: "y \<in> reg Ls1" unfolding r1 using pr(2) pny by simp
  let ?s2 = "delete ?s1 (of_nat y)"
  have sub1': "reg Ls1 - {y} \<subseteq> set (free_bps (hd0 ?s1) ?bs)" using sub1 by blast
  from delete_layout[OF l1 t1 sub1' yr1] obtain Ls2 where
    t2: "table_ok ?s2 Ls2" and r2: "reg Ls2 = reg Ls1 - {y}"
    and l2: "layout ?s2 ?bs" and h2: "hd0 ?s2 = hd0 ?s1"
    and e2: "eq_except ?s1 ?s2 (cells (reg Ls1 - {y}))"
    and m2: "mem_max_addr ?s2 = mem_max_addr ?s1" by blast
  have r2': "reg Ls2 = set (free_bps (hd0 s) xs) \<union> set (free_bps (g + (psz + sz + nsz)) ys)"
    unfolding r2 r1 rg using pn yn by auto
  have g1: "g = hd0 ?s1 + total xs" using g_def h1 by simp
  have g2: "g = hd0 ?s2 + total xs" using g_def h1 h2 by simp
  have lb1: "layout ?s1 ((xs @ [(psz, False)]) @ (sz, False) # (nsz, False) # ys)"
    using l1 by simp
  have hb1: "h = hd0 ?s1 + total (xs @ [(psz, False)])" using hb0 h1 by simp
  note k1 = layout_block[OF lb1 hb1]
  have lb2: "layout ?s2 ((xs @ [(psz, False)]) @ (sz, False) # (nsz, False) # ys)"
    using l2 by simp
  have hb2: "h = hd0 ?s2 + total (xs @ [(psz, False)])" using hb0 h1 h2 by simp
  note kp2 = layout_block[OF l2 g2]
  note k2 = layout_block[OF lb2 hb2]
  note kn2 = layout_next[OF lb2 hb2]
  \<comment> \<open>rewriting header and footer\<close>
  let ?s4 = "wr (wr ?s2 g T) f T"
  have l2': "layout ?s2 (xs @ [(psz, False), (sz, False), (nsz, False)] @ ys)" using l2 by simp
  have l4: "layout ?s4 (xs @ (psz + sz + nsz, False) # ys)"
    and e4: "eq_except ?s2 ?s4 {g, f}"
    using layout_retag[OF l2' _ g2, of "psz + sz + nsz" f False] f_def T_def
    by (simp_all add: add.assoc)
  have h4: "hd0 ?s4 = hd0 s" using h1 h2 by (simp add: hd0_def)
  have inA: "\<forall>q \<in> {g, f}. g \<le> q \<and> q < g + (psz + sz + nsz)" using f_def kp(3) by simp
  note rf = region_frame[OF ok inA g_def]
  have t4: "table_ok ?s4 Ls2"
  proof (rule table_frame[OF t2 e4])
    show "{g, f} \<inter> cells (reg Ls2) = {}" unfolding r2' cells_Un using rf(3,4) by blast
  qed simp
  \<comment> \<open>the merged block is ready for insertion\<close>
  have xin: "px \<in> set (free_bps (hd0 ?s4) (xs @ (psz + sz + nsz, False) # ys))"
    unfolding free_bps_mid h4 using px_def g_def by simp
  have xn: "px \<notin> reg Ls2" unfolding r2' using pn .
  have ins: "insert px (reg Ls2)
      = set (free_bps (hd0 ?s4) (xs @ (psz + sz + nsz, False) # ys))"
    unfolding free_bps_mid h4 r2' using px_def g_def by (auto simp add: add.assoc)
  have naf: "no_adj_free (xs @ (psz + sz + nsz, False) # ys)"
    using d(4) by (simp add: naf_append naf_Cons)
  have hb: "heap_but ?s4 (xs @ (psz + sz + nsz, False) # ys) Ls2 px"
    unfolding heap_but_def using l4 t4 xin xn ins naf by blast
  \<comment> \<open>what the code computes\<close>
  have xb: "x = hd0 s + total (xs @ [(psz, False)]) + 8" using x by simp
  have pe: "(xs @ [(psz, False)] = [] \<or> snd (last (xs @ [(psz, False)]))) = False"
    "((nsz, False) # ys = [] \<or> snd (hd ((nsz, False) # ys))) = False" by simp_all
  have pxx: "px = x - psz" using px_def xh h_def by simp
  have hg: "h - 8 = g + psz - 8" using h_def by simp
  have pv: "PREV_BLKP s (of_nat x) = of_nat px"
    using xh kp(2,3,4) h_def pxx by (intro mac_PREV[of x h s psz False]) simp_all
  have hx: "HDRP (of_nat x) = of_nat h" using xh by (rule mac_HDRP)
  have hpx: "HDRP (of_nat px) = of_nat g" using px_def by (rule mac_HDRP)
  have sx: "GET_SIZE s (of_nat h) = of_nat sz" using k(1,4) by (intro mac_size) simp_all
  have sp: "GET_SIZE s (of_nat g) = of_nat psz" using kp(1,4) by (intro mac_size) simp_all
  have nx: "NEXT_BLKP s (of_nat x) = of_nat y"
    using xh k(1,4) y_def by (intro mac_NEXT[of x h s sz False]) simp_all
  have ff: "f = h + sz + nsz - 8" using f_def h_def by simp
  have fn: "FTRP s (of_nat y) = of_nat f"
    using y_def xh kn(1,3,4) ff by (intro mac_FTRP[of y "h + sz" s nsz False]) simp_all
  have sn: "GET_SIZE s (of_nat f) = of_nat nsz"
    using kn(2,4) unfolding ff by (intro mac_size) simp_all
  have pk: "PACK (of_nat sz + of_nat psz + of_nat nsz) 0 = T"
    unfolding T_def by (simp add: tag_def add_ac)
  have nx1: "NEXT_BLKP ?s1 (of_nat x) = of_nat y"
    using xh k1(1,4) y_def by (intro mac_NEXT[of x h _ sz False]) simp_all
  have pv2: "PREV_BLKP ?s2 (of_nat x) = of_nat px"
    using xh kp2(2,3,4) h_def pxx by (intro mac_PREV[of x h _ psz False]) simp_all
  have g8: "8 dvd g" using kp(5) .
  have v: "va g" "va h" "va f" "va (h - 8)" "va (h + sz)"
    using kp(5,8) kp(3,4) k(3,4) kn(3,4) h_def f_def
    by (auto simp add: va_def dvd_16_8 intro!: dvd_add dvd_diff_nat)
  have ne: "g \<noteq> h" "h \<noteq> f" "h - 8 \<noteq> g" "h - 8 \<noteq> f" "g \<noteq> h + sz" "h + sz \<noteq> f"
    using kp(3) k(3) kn(3) h_def f_def by simp_all
  have "rd (wr ?s2 g T) h = tag sz False" using v ne k2(1) by (simp add: rd_wr)
  then have nx3: "NEXT_BLKP (wr ?s2 g T) (of_nat x) = of_nat y"
    using xh k(4) y_def by (intro mac_NEXT[of x h _ sz False]) simp_all
  have "rd (wr ?s2 g T) (h + sz) = tag nsz False" using v ne kn2(1) by (simp add: rd_wr)
  then have ft3: "FTRP (wr ?s2 g T) (of_nat y) = of_nat f"
    using y_def xh kn(3,4) ff by (intro mac_FTRP[of y "h + sz" _ nsz False]) simp_all
  have "rd ?s4 (h - 8) = tag psz False" using v ne kp2(2) hg by (simp add: rd_wr)
  then have pv4: "PREV_BLKP ?s4 (of_nat x) = of_nat px"
    using xh kp(3,4) h_def pxx by (intro mac_PREV[of x h _ psz False]) simp_all
  have ev: "coalesce s (of_nat x) = (of_nat px, insert_blk ?s4 (of_nat px))"
    unfolding coalesce_eval[OF lb xb] pe
    by (simp add: Let_def pv hx hpx sx sp nx fn sn pk nx1 pv2 PUT_wr nx3 ft3 pv4 del: of_nat_add)
  show "\<exists>Ls'. heap_ok (snd (coalesce s (of_nat x))) (xs @ (psz + sz + nsz, False) # ys) Ls'"
    unfolding ev using heap_but_insert(1)[OF hb refl] by auto
  show "fst (coalesce s (of_nat x)) = of_nat (x - psz)" unfolding ev pxx by simp
  let ?P = "alloc_words (hd0 s) ?bs"
  have c1: "cells (reg Ls - {px}) \<subseteq> cells (set (free_bps (hd0 s) ?bs))"
    by (rule cells_mono) (use sub in blast)
  have k1: "keeps s ?s1 ?P" using keeps_cells[OF l e1 c1] .
  have c2: "cells (reg Ls1 - {y}) \<subseteq> cells (set (free_bps (hd0 ?s1) ?bs))"
    by (rule cells_mono) (use sub1 in blast)
  have k2: "keeps ?s1 ?s2 ?P" using keeps_cells[OF l1 e2 c2] unfolding h1 .
  have fr: "\<forall>b \<in> set [(psz, False), (sz, False), (nsz, False)]. \<not> snd b" by simp
  have inA': "\<forall>q \<in> {g, f}. g \<le> q
      \<and> q < g + total [(psz, False), (sz, False), (nsz, False)]"
    using inA by (simp add: add.assoc)
  have k3: "keeps ?s2 ?s4 ?P" using keeps_region[OF l2' fr e4 inA' g2] unfolding h2 h1 by simp
  have pe: "?P = alloc_words (hd0 ?s4) (xs @ (psz + sz + nsz, False) # ys)"
    unfolding h4 using alloc_words_merge[OF fr, of "hd0 s" xs ys] by (simp add: add.assoc)
  have k4: "keeps ?s4 (insert_blk ?s4 (of_nat px)) ?P"
    unfolding pe using keeps_cells[OF l4 heap_but_insert(2)[OF hb refl] subset_refl] .
  show "keeps s (snd (coalesce s (of_nat x))) ?P"
    unfolding ev using keeps_trans[OF keeps_trans[OF keeps_trans[OF k1 k2] k3] k4] by simp
  show "hd0 (snd (coalesce s (of_nat x))) = hd0 s"
    unfolding ev using heap_but_insert(3)[OF hb refl] h4 by simp
  show "mem_max_addr (snd (coalesce s (of_nat x))) = mem_max_addr s"
    unfolding ev using heap_but_insert(4)[OF hb refl] m1 m2 by simp
qed

section \<open>\<^verbatim>\<open>coalesce\<close> and \<^verbatim>\<open>free\<close> keep the heap\<close>

lemma coalesce_ok:
  assumes hp: "heap_pre s xs sz ys Ls" and x: "x = hd0 s + total xs + 8"
  shows "\<exists>Ls'. heap_ok (snd (coalesce s (of_nat x))) (coalesced xs sz ys) Ls'"
    and "fst (coalesce s (of_nat x))
          = of_nat (x - (if xs \<noteq> [] \<and> \<not> snd (last xs) then fst (last xs) else 0))"
    and "keeps s (snd (coalesce s (of_nat x))) (alloc_words (hd0 s) (xs @ (sz, False) # ys))"
    and "hd0 (snd (coalesce s (of_nat x))) = hd0 s"
    and "mem_max_addr (snd (coalesce s (of_nat x))) = mem_max_addr s"
proof -
  let ?s' = "snd (coalesce s (of_nat x))"
  have "(\<exists>Ls'. heap_ok ?s' (coalesced xs sz ys) Ls')
    \<and> fst (coalesce s (of_nat x))
          = of_nat (x - (if xs \<noteq> [] \<and> \<not> snd (last xs) then fst (last xs) else 0))
    \<and> keeps s ?s' (alloc_words (hd0 s) (xs @ (sz, False) # ys))
    \<and> hd0 ?s' = hd0 s \<and> mem_max_addr ?s' = mem_max_addr s"
  proof (cases "xs \<noteq> [] \<and> \<not> snd (last xs)")
    case False
    then have pa: "xs = [] \<or> snd (last xs)" by blast
    show ?thesis
    proof (cases "ys \<noteq> [] \<and> \<not> snd (hd ys)")
      case False
      then have na: "ys = [] \<or> snd (hd ys)" by blast
      have c: "coalesced xs sz ys = xs @ (sz, False) # ys"
        using pa na by (auto simp add: coalesced_def)
      show ?thesis unfolding c using coalesce_none[OF hp pa na x] pa by auto
    next
      case True
      then obtain nsz ys' where ys: "ys = (nsz, False) # ys'" by (cases ys) auto
      have c: "coalesced xs sz ys = xs @ (sz + nsz, False) # ys'"
        using pa ys by (auto simp add: coalesced_def)
      show ?thesis unfolding c using coalesce_next[OF hp[unfolded ys] pa x] pa ys by auto
    qed
  next
    case True
    then obtain psz xs' where xs: "xs = xs' @ [(psz, False)]"
      by (cases xs rule: rev_cases) auto
    have x': "x = hd0 s + total xs' + psz + 8" using x xs by simp
    show ?thesis
    proof (cases "ys \<noteq> [] \<and> \<not> snd (hd ys)")
      case False
      then have na: "ys = [] \<or> snd (hd ys)" by blast
      have c: "coalesced xs sz ys = xs' @ (psz + sz, False) # ys"
        using xs na by (auto simp add: coalesced_def)
      show ?thesis unfolding c using coalesce_prev[OF hp[unfolded xs] na x'] xs by auto
    next
      case True
      then obtain nsz ys' where ys: "ys = (nsz, False) # ys'" by (cases ys) auto
      have c: "coalesced xs sz ys = xs' @ (psz + sz + nsz, False) # ys'"
        using xs ys by (auto simp add: coalesced_def)
      show ?thesis unfolding c using coalesce_both[OF hp[unfolded xs ys] x'] xs ys by auto
    qed
  qed
  then show "\<exists>Ls'. heap_ok (snd (coalesce s (of_nat x))) (coalesced xs sz ys) Ls'"
    and "fst (coalesce s (of_nat x))
          = of_nat (x - (if xs \<noteq> [] \<and> \<not> snd (last xs) then fst (last xs) else 0))"
    and "keeps s (snd (coalesce s (of_nat x))) (alloc_words (hd0 s) (xs @ (sz, False) # ys))"
    and "hd0 (snd (coalesce s (of_nat x))) = hd0 s"
    and "mem_max_addr (snd (coalesce s (of_nat x))) = mem_max_addr s" by blast+
qed

lemma heap_okD:
  assumes "heap_ok s bs Ls"
  shows "layout s bs" "table_ok s Ls" "reg Ls = set (free_bps (hd0 s) bs)" "no_adj_free bs"
  using assms by (simp_all add: heap_ok_def)

lemma free_ok:
  assumes ho: "heap_ok s (xs @ (sz, True) # ys) Ls" and x: "x = hd0 s + total xs + 8"
  shows "\<exists>Ls'. heap_ok (free s (of_nat x)) (coalesced xs sz ys) Ls'"
    and "keeps s (free s (of_nat x)) (alloc_words (hd0 s) (xs @ (sz, False) # ys))"
    and "hd0 (free s (of_nat x)) = hd0 s"
    and "mem_max_addr (free s (of_nat x)) = mem_max_addr s"
proof -
  note d = heap_okD[OF ho]
  define h where "h = hd0 s + total xs"
  define f where "f = h + sz - 8"
  define T where "T = tag sz False"
  have xh: "x = h + 8" using x h_def by simp
  have ok: "sizes_ok xs" "sizes_ok ys" using layoutD(1)[OF d(1)] by simp_all
  note k = layout_block[OF d(1) h_def]
  let ?s2 = "wr (wr s h T) f T"
  have l0: "layout s (xs @ [(sz, True)] @ ys)" using d(1) by simp
  have l2: "layout ?s2 (xs @ (sz, False) # ys)" and e2: "eq_except s ?s2 {h, f}"
    using layout_retag[OF l0 _ h_def, of sz f False] f_def T_def by simp_all
  have h2: "hd0 ?s2 = hd0 s" by (simp add: hd0_def)
  have rg: "reg Ls = set (free_bps (hd0 s) xs) \<union> set (free_bps (h + sz) ys)"
    unfolding d(3) free_bps_mid h_def by simp
  have inA: "\<forall>q \<in> {h, f}. h \<le> q \<and> q < h + sz" using f_def k(3) by simp
  note rf = region_frame[OF ok inA h_def]
  have t2: "table_ok ?s2 Ls"
  proof (rule table_frame[OF d(2) e2])
    show "{h, f} \<inter> cells (reg Ls) = {}" unfolding rg cells_Un using rf(3,4) by blast
  qed simp
  have hp: "heap_pre ?s2 xs sz ys Ls"
    unfolding heap_pre_def h2 using l2 t2 d(3,4) by simp
  have x2: "x = hd0 ?s2 + total xs + 8" using x h2 by simp
  note co = coalesce_ok[OF hp x2]
  have hx: "HDRP (of_nat x) = of_nat h" using xh by (rule mac_HDRP)
  have sx: "GET_SIZE s (of_nat h) = of_nat sz" using k(1,4) by (intro mac_size) simp_all
  have pk: "PACK (of_nat sz) 0 = T" unfolding T_def by (simp add: tag_def)
  have v: "va h" using k(5,8) by (simp add: va_def)
  have "rd (wr s h T) h = tag sz False" using v T_def by (simp add: rd_wr)
  then have ft: "FTRP (wr s h T) (of_nat x) = of_nat f"
    using xh k(3,4) f_def by (intro mac_FTRP[of x h _ sz False]) simp_all
  have ev: "free s (of_nat x) = snd (coalesce ?s2 (of_nat x))"
    by (simp add: free_def Let_def hx sx pk PUT_wr ft del: of_nat_add)
  show "\<exists>Ls'. heap_ok (free s (of_nat x)) (coalesced xs sz ys) Ls'"
    unfolding ev using co(1) .
  have fr: "\<forall>b \<in> set [(sz, False)]. \<not> snd b" by simp
  have a1: "{h, f} \<inter> alloc_words (hd0 s) (xs @ [(sz, False)] @ ys) = {}"
    using inA by (intro alloc_region_disjoint[OF ok fr _ h_def]) simp
  have k1: "keeps s ?s2 (alloc_words (hd0 s) (xs @ (sz, False) # ys))"
    using keeps_eq_except[OF e2 a1] by simp
  show "keeps s (free s (of_nat x)) (alloc_words (hd0 s) (xs @ (sz, False) # ys))"
    unfolding ev using keeps_trans[OF k1 co(3)[unfolded h2]] .
  show "hd0 (free s (of_nat x)) = hd0 s" unfolding ev using co(4) h2 by simp
  show "mem_max_addr (free s (of_nat x)) = mem_max_addr s" unfolding ev using co(5) by simp
qed

section \<open>The fit search\<close>

lemma first_fit_simps [simp]:
  "first_fit s a [] = 0"
  "first_fit s a (x # L) = (if fits s a x then of_nat x else first_fit s a L)"
  by (simp_all add: first_fit_def)

lemma first_fit_append:
  "\<forall>x \<in> set L. cell x \<Longrightarrow>
   first_fit s a (L @ M) = (if first_fit s a L \<noteq> 0 then first_fit s a L else first_fit s a M)"
  by (induction L) (auto simp add: cell_nonzero)

lemma find_fit_list_ok:
  "dlseg s p h L 0 \<Longrightarrow> \<forall>x \<in> set L. cell x \<Longrightarrow> find_fit_list s h a = Some (first_fit s a L)"
proof (induction L arbitrary: p h)
  case Nil
  then show ?case by (subst find_fit_list.simps) simp
next
  case (Cons x L)
  then have h: "h = of_nat x" and c: "cell x" and d: "dlseg s (of_nat x) (rd s (x + 8)) L 0"
    by simp_all
  have ih: "find_fit_list s (rd s (x + 8)) a = Some (first_fit s a L)"
    using Cons.IH[OF d] Cons.prems(2) by simp
  show ?case unfolding h
    by (subst find_fit_list.simps) (simp add: cell_nonzero[OF c] fits_def NEXTF_rd ih)
qed

lemma find_fit_classes_ok:
  assumes t: "table_ok s Ls"
  shows "i \<le> 11 \<Longrightarrow> find_fit_classes s i a = Some (first_fit s a (concat (map Ls [i..<11])))"
proof (induction "11 - i" arbitrary: i)
  case 0
  then have "i = 11" by simp
  then show ?case by (subst find_fit_classes.simps) simp
next
  case (Suc k)
  then have i: "i < 11" by simp
  have ih: "find_fit_classes s (Suc i) a
      = Some (first_fit s a (concat (map Ls [Suc i..<11])))"
    using Suc.hyps(1)[of "Suc i"] Suc.hyps(2) i by simp
  have c: "\<forall>x \<in> set (Ls i). cell x" using table_okD(3)[OF t i] by blast
  have l: "find_fit_list s (seg s i) a = Some (first_fit s a (Ls i))"
    using find_fit_list_ok[OF table_okD(1)[OF t i] c] .
  have u: "[i..<11] = i # [Suc i..<11]" using i by (simp add: upt_conv_Cons)
  show ?case
    by (subst find_fit_classes.simps) (simp add: i l ih u first_fit_append[OF c])
qed

lemma find_fit_ok:
  assumes t: "table_ok s Ls"
  shows "find_fit s a = Some (first_fit s a (concat (map Ls [iterate a..<11])))"
  unfolding find_fit_def using find_fit_classes_ok[OF t, of "iterate a" a] iterate_le[of a]
  by simp

lemma first_fit_cases:
  "first_fit s a L = 0 \<or> (\<exists>x \<in> set L. first_fit s a L = of_nat x \<and> fits s a x)"
  by (induction L) auto

lemma find_fit_result:
  assumes t: "table_ok s Ls"
  shows "\<exists>r. find_fit s a = Some r \<and> (r = 0 \<or> (\<exists>x \<in> reg Ls. r = of_nat x \<and> fits s a x))"
proof -
  let ?L = "concat (map Ls [iterate a..<11])"
  have "set ?L \<subseteq> reg Ls" by (auto simp add: reg_iff)
  then show ?thesis unfolding find_fit_ok[OF t] using first_fit_cases[of s a ?L] by blast
qed

section \<open>Placement\<close>

lemma hd0_wr [simp]: "hd0 (wr s a v) = hd0 s"
  by (simp add: hd0_def)

lemma naf_alloc:
  assumes "no_adj_free (xs @ (c, False) # ys)"
  shows "no_adj_free (xs @ (c', True) # ys)" "xs = [] \<or> snd (last xs)" "ys = [] \<or> snd (hd ys)"
  using assms by (auto simp add: naf_append naf_Cons)

lemma word_sub_ge:
  assumes "a \<le> c" "c < 2 ^ 64"
  shows "((32::64 word) \<le> of_nat c - of_nat a) = (32 \<le> c - a)"
proof -
  have "(of_nat c :: 64 word) - of_nat a = of_nat (c - a)" using assms(1) by simp
  moreover have "unat (of_nat (c - a) :: 64 word) = c - a"
    using assms by (intro unat_of_nat64) simp
  ultimately show ?thesis by (simp add: word_le_nat_alt)
qed

lemma place_whole:
  assumes ho: "heap_ok s (xs @ (c, False) # ys) Ls" and x: "x = hd0 s + total xs + 8"
    and a: "a \<le> c" "c - a < 32"
  shows "\<exists>Ls'. heap_ok (place s (of_nat x) (of_nat a)) (xs @ (c, True) # ys) Ls'"
    and "keeps s (place s (of_nat x) (of_nat a)) (alloc_words (hd0 s) (xs @ (c, False) # ys))"
    and "hd0 (place s (of_nat x) (of_nat a)) = hd0 s"
    and "mem_max_addr (place s (of_nat x) (of_nat a)) = mem_max_addr s"
proof -
  note d = heap_okD[OF ho]
  define h where "h = hd0 s + total xs"
  define f where "f = h + c - 8"
  define T where "T = tag c True"
  have xh: "x = h + 8" using x h_def by simp
  have ok: "sizes_ok xs" "sizes_ok ys" using layoutD(1)[OF d(1)] by simp_all
  note k = layout_block[OF d(1) h_def]
  have c64: "c < 2 ^ 64" using k(8) by simp
  let ?s2 = "wr (wr s h T) f T"
  have l0: "layout s (xs @ [(c, False)] @ ys)" using d(1) by simp
  have l2: "layout ?s2 (xs @ (c, True) # ys)" and e2: "eq_except s ?s2 {h, f}"
    using layout_retag[OF l0 _ h_def, of c f True] f_def T_def by simp_all
  have h2: "hd0 ?s2 = hd0 s" by (simp add: hd0_def)
  have rg: "reg Ls = set (free_bps (hd0 s) xs) \<union> {x} \<union> set (free_bps (h + c) ys)"
    unfolding d(3) free_bps_mid h_def using x by simp
  have xn: "x \<notin> set (free_bps (hd0 s) xs) \<union> set (free_bps (h + c) ys)"
    using xh k(3) by (intro notin_mid[OF ok h_def]) simp_all
  have inA: "\<forall>q \<in> {h, f}. h \<le> q \<and> q < h + c" using f_def k(3) by simp
  note rf = region_frame[OF ok inA h_def]
  have t2: "table_ok ?s2 Ls"
  proof (rule table_frame[OF d(2) e2])
    have "{h, f} \<inter> {x, x + 8} = {}" using xh f_def k(3) by auto
    then show "{h, f} \<inter> cells (reg Ls) = {}"
      unfolding rg cells_Un cells_insert using rf(3,4) by auto
  qed simp
  have xr: "x \<in> reg Ls" unfolding rg by simp
  have sub: "reg Ls - {x} \<subseteq> set (free_bps (hd0 ?s2) (xs @ (c, True) # ys))"
    unfolding rg free_bps_mid by (auto simp add: h_def)
  let ?s3 = "delete ?s2 (of_nat x)"
  from delete_layout[OF l2 t2 sub xr] obtain Ls3 where
    t3: "table_ok ?s3 Ls3" and r3: "reg Ls3 = reg Ls - {x}"
    and l3: "layout ?s3 (xs @ (c, True) # ys)" and h3: "hd0 ?s3 = hd0 ?s2"
    and e3: "eq_except ?s2 ?s3 (cells (reg Ls - {x}))"
    and m3: "mem_max_addr ?s3 = mem_max_addr ?s2" by blast
  have r3': "reg Ls3 = set (free_bps (hd0 ?s3) (xs @ (c, True) # ys))"
    unfolding r3 rg h3 free_bps_mid using xn by (auto simp add: h_def)
  have ho3: "heap_ok ?s3 (xs @ (c, True) # ys) Ls3"
    unfolding heap_ok_def using l3 t3 r3' naf_alloc(1)[OF d(4)] by blast
  have hx: "HDRP (of_nat x) = of_nat h" using xh by (rule mac_HDRP)
  have sx: "GET_SIZE s (of_nat h) = of_nat c" using k(1,4) by (intro mac_size) simp_all
  have pk: "PACK (of_nat c) 1 = T" unfolding T_def by (simp add: tag_def)
  have v: "va h" using k(5,8) by (simp add: va_def)
  have "rd (wr s h T) h = tag c True" using v T_def by (simp add: rd_wr)
  then have ft: "FTRP (wr s h T) (of_nat x) = of_nat f"
    using xh k(3,4) f_def by (intro mac_FTRP[of x h _ c True]) simp_all
  have cond: "\<not> (32::64 word) \<le> of_nat c - of_nat a"
    using word_sub_ge[OF a(1) c64] a(2) by simp
  have ev: "place s (of_nat x) (of_nat a) = ?s3"
    by (simp add: place_def Let_def hx sx cond DSIZE_def pk PUT_wr ft del: of_nat_add of_nat_diff)
  show "\<exists>Ls'. heap_ok (place s (of_nat x) (of_nat a)) (xs @ (c, True) # ys) Ls'"
    unfolding ev using ho3 by blast
  let ?P = "alloc_words (hd0 s) (xs @ (c, False) # ys)"
  have fr: "\<forall>b \<in> set [(c, False)]. \<not> snd b" by simp
  have a1: "{h, f} \<inter> alloc_words (hd0 s) (xs @ [(c, False)] @ ys) = {}"
    using inA by (intro alloc_region_disjoint[OF ok fr _ h_def]) simp
  have k1: "keeps s ?s2 ?P" using keeps_eq_except[OF e2 a1] by simp
  have c3: "cells (reg Ls - {x}) \<subseteq> cells (set (free_bps (hd0 s) (xs @ (c, False) # ys)))"
    by (rule cells_mono) (auto simp add: rg free_bps_mid h_def)
  have "cells (reg Ls - {x}) \<inter> ?P = {}"
    using alloc_cells_disjoint[OF layoutD(1)[OF d(1)], of "hd0 s"] c3 by blast
  then have k2: "keeps ?s2 ?s3 ?P" using keeps_eq_except[OF e3] by blast
  show "keeps s (place s (of_nat x) (of_nat a)) ?P"
    unfolding ev using keeps_trans[OF k1 k2] .
  show "hd0 (place s (of_nat x) (of_nat a)) = hd0 s" unfolding ev using h3 h2 by simp
  show "mem_max_addr (place s (of_nat x) (of_nat a)) = mem_max_addr s"
    unfolding ev using m3 by simp
qed

lemma cells_bounds_sub:
  assumes "sizes_ok bs" "C \<subseteq> cells (set (free_bps h0 bs))" "q \<in> C"
  shows "h0 + 8 \<le> q \<and> q + 16 \<le> h0 + total bs"
  using cells_range[OF assms(1), of q h0] assms(2,3) by blast

lemma place_split:
  assumes ho: "heap_ok s (xs @ (c, False) # ys) Ls" and x: "x = hd0 s + total xs + 8"
    and a: "32 \<le> a" "16 dvd a" "a \<le> c" "32 \<le> c - a"
  shows "\<exists>Ls'. heap_ok (place s (of_nat x) (of_nat a)) (xs @ (a, True) # (c - a, False) # ys) Ls'"
    and "keeps s (place s (of_nat x) (of_nat a)) (alloc_words (hd0 s) (xs @ (c, False) # ys))"
    and "hd0 (place s (of_nat x) (of_nat a)) = hd0 s"
    and "mem_max_addr (place s (of_nat x) (of_nat a)) = mem_max_addr s"
proof -
  note d = heap_okD[OF ho]
  define h where "h = hd0 s + total xs"
  define f1 where "f1 = h + a - 8"
  define h2 where "h2 = h + a"
  define f where "f = h + c - 8"
  define x2 where "x2 = x + a"
  define Ta where "Ta = tag a True"
  define Tr where "Tr = tag (c - a) False"
  let ?bs = "xs @ (c, False) # ys"
  have xh: "x = h + 8" using x h_def by simp
  have okb: "sizes_ok ?bs" using layoutD(1)[OF d(1)] .
  have ok: "sizes_ok xs" "sizes_ok ys" using okb by simp_all
  note k = layout_block[OF d(1) h_def]
  note b = layout_bounds[OF d(1)]
  have c64: "c < 2 ^ 64" using k(8) by simp
  have ca16: "16 dvd c - a" using k(4) a(2) by (simp add: dvd_diff_nat)
  have v: "va h" "va f1" "va h2" "va f"
    using k(5,8) k(3,4) a ca16 f1_def h2_def f_def
    by (auto simp add: va_def dvd_16_8 intro!: dvd_add dvd_diff_nat)
  have ne: "h \<noteq> f1" "h \<noteq> h2" "h \<noteq> f" "f1 \<noteq> h2" "f1 \<noteq> f" "h2 \<noteq> f"
    using a f1_def h2_def f_def by simp_all
  define R where "R = set (free_bps (hd0 s) xs) \<union> set (free_bps (h + c) ys)"
  have rg: "reg Ls = insert x R"
    unfolding d(3) free_bps_mid R_def h_def using x by simp
  have xn: "x \<notin> R" unfolding R_def
    using xh k(3) by (intro notin_mid[OF ok h_def]) simp_all
  have xr: "x \<in> reg Ls" unfolding rg by simp
  have rx: "reg Ls - {x} = R" unfolding rg using xn by simp
  have inA: "\<forall>q \<in> {h, f1, h2, f}. h \<le> q \<and> q < h + c"
    using f1_def h2_def f_def a by simp arith
  note rf = region_frame[OF ok inA h_def]
  have cR: "{h, f1, h2, f} \<inter> cells R = {}" unfolding R_def cells_Un using rf(3,4) by blast
  have Rsub: "R \<subseteq> set (free_bps (hd0 s) ?bs)" unfolding R_def free_bps_mid h_def by auto
  have cRsub: "cells R \<subseteq> cells (set (free_bps (hd0 s) ?bs))" using cells_mono[OF Rsub] .
  \<comment> \<open>header and footer of the allocated part\<close>
  let ?s2 = "wr (wr s h Ta) f1 Ta"
  have e2: "eq_except s ?s2 {h, f1}"
    using eq_except_trans[OF eq_except_wr[OF v(1)] eq_except_wr[OF v(2)], of s Ta Ta]
    by (simp add: insert_commute)
  have t2: "table_ok ?s2 Ls"
  proof (rule table_frame[OF d(2) e2])
    have "{h, f1} \<inter> {x, x + 8} = {}" using xh f1_def a by auto
    then show "{h, f1} \<inter> cells (reg Ls) = {}"
      unfolding rg cells_insert using cR by auto
  qed simp
  \<comment> \<open>removing the block from its list\<close>
  let ?s3 = "delete ?s2 (of_nat x)"
  from delete_in_heap[OF t2 xr] obtain Ls3 where
    t3: "table_ok ?s3 Ls3" and r3: "reg Ls3 = reg Ls - {x}"
    and e3: "eq_except ?s2 ?s3 (cells (reg Ls - {x}))"
    and f3: "heap_listp ?s3 = heap_listp ?s2" "mem_brk ?s3 = mem_brk ?s2"
       "mem_max_addr ?s3 = mem_max_addr ?s2" by blast
  \<comment> \<open>header and footer of the remainder\<close>
  let ?s5 = "wr (wr ?s3 h2 Tr) f Tr"
  have e5: "eq_except ?s3 ?s5 {h2, f}"
    using eq_except_trans[OF eq_except_wr[OF v(3)] eq_except_wr[OF v(4)], of ?s3 Tr Tr]
    by (simp add: insert_commute)
  have e: "eq_except s ?s5 ({h, f1} \<union> cells R \<union> {h2, f})"
    using eq_except_trans[OF eq_except_trans[OF e2 e3[unfolded rx]] e5] .
  have r3h: "rd ?s3 h = Ta" "rd ?s3 f1 = Ta"
    using eq_except_rd[OF e3[unfolded rx] v(1)] eq_except_rd[OF e3[unfolded rx] v(2)] cR v ne
    by (simp_all add: rd_wr)
  have r5: "rd ?s5 h = Ta" "rd ?s5 f1 = Ta" "rd ?s5 h2 = Tr" "rd ?s5 f = Tr"
    using r3h v ne by (simp_all add: rd_wr)
  have tg: "tags ?s5 h [(a, True), (c - a, False)]"
    using r5 a(3) unfolding Ta_def Tr_def f1_def h2_def f_def by simp
  have l0: "layout s (xs @ [(c, False)] @ ys)" using d(1) by simp
  have hfd: "hf_set (hd0 s) ?bs \<inter> cells (set (free_bps (hd0 s) ?bs)) = {}"
    using hf_cells_disjoint[OF okb] .
  have hfx: "hf_set (hd0 s) xs \<subseteq> hf_set (hd0 s) ?bs" "hf_set (h + c) ys \<subseteq> hf_set (hd0 s) ?bs"
    unfolding hf_set_append h_def by auto
  have l5': "layout ?s5 (xs @ [(a, True), (c - a, False)] @ ys)"
  proof (rule layout_replace[OF l0 h_def e _ _ _ _ tg])
    show "({h, f1} \<union> cells R \<union> {h2, f}) \<inter> hf_set (hd0 s) xs = {}"
      using rf(1) hfd hfx(1) cRsub by auto
    show "({h, f1} \<union> cells R \<union> {h2, f}) \<inter> hf_set (h + total [(c, False)]) ys = {}"
      using rf(2) hfd hfx(2) cRsub by auto
    have "hd0 s - 8 \<notin> cells R"
      using cells_bounds_sub[OF okb cRsub, of "hd0 s - 8"] by auto
    moreover have "hd0 s - 8 \<notin> {h, f1, h2, f}" using inA b(1) h_def by auto
    ultimately show "hd0 s - 8 \<notin> {h, f1} \<union> cells R \<union> {h2, f}" by blast
    have "h + c + total ys \<notin> cells R"
      using cells_bounds_sub[OF okb cRsub, of "h + c + total ys"] h_def by auto
    moreover have "h + c + total ys \<notin> {h, f1, h2, f}" using inA by auto
    ultimately show "h + total [(c, False)] + total ys \<notin> {h, f1} \<union> cells R \<union> {h2, f}"
      by simp
    show "sizes_ok [(a, True), (c - a, False)]" using a ca16 by simp
    show "total [(a, True), (c - a, False)] = total [(c, False)]" using a(3) by simp
    show "heap_listp ?s5 = heap_listp s" using f3 by simp
    show "mem_brk ?s5 = mem_brk s" using f3 by simp
  qed
  have h5: "hd0 ?s5 = hd0 s" using f3(1) by (simp add: hd0_def)
  have t5: "table_ok ?s5 Ls3"
  proof (rule table_frame[OF t3 e5])
    show "{h2, f} \<inter> cells (reg Ls3) = {}" unfolding r3 rx using cR by blast
  qed simp
  have rr: "R = set (free_bps (hd0 s) ((xs @ [(a, True)]) @ (c - a, True) # ys))"
    unfolding R_def using a(3) by (simp add: free_bps_append h_def add.assoc)
  have nf: "no_adj_free ((xs @ [(a, True)]) @ (c - a, True) # ys)"
    using d(4) by (simp add: naf_append naf_Cons)
  have l5: "layout ?s5 ((xs @ [(a, True)]) @ (c - a, False) # ys)" using l5' by simp
  have hp: "heap_pre ?s5 (xs @ [(a, True)]) (c - a) ys Ls3"
    unfolding heap_pre_def h5 r3 rx using l5 t5 rr nf by blast
  have x2': "x2 = hd0 ?s5 + total (xs @ [(a, True)]) + 8"
    unfolding h5 using x2_def x by simp
  note co = coalesce_ok[OF hp x2']
  have cl: "coalesced (xs @ [(a, True)]) (c - a) ys = xs @ (a, True) # (c - a, False) # ys"
    using naf_alloc(3)[OF d(4)] by (auto simp add: coalesced_def)
  \<comment> \<open>what the code computes\<close>
  have hx: "HDRP (of_nat x) = of_nat h" using xh by (rule mac_HDRP)
  have sx: "GET_SIZE s (of_nat h) = of_nat c" using k(1,4) by (intro mac_size) simp_all
  have pk: "PACK (of_nat a) 1 = Ta" unfolding Ta_def by (simp add: tag_def)
  have "rd (wr s h Ta) h = tag a True" using v Ta_def by (simp add: rd_wr)
  then have ft: "FTRP (wr s h Ta) (of_nat x) = of_nat f1"
    using xh a f1_def by (intro mac_FTRP[of x h _ a True]) simp_all
  have cond: "(32::64 word) \<le> of_nat c - of_nat a"
    using word_sub_ge[OF a(3) c64] a(4) by simp
  have nx: "NEXT_BLKP ?s3 (of_nat x) = of_nat x2"
    using xh r3h(1) a(2) x2_def unfolding Ta_def
    by (intro mac_NEXT[of x h _ a True]) simp_all
  have hx2: "HDRP (of_nat x2) = of_nat h2" using x2_def xh h2_def by (intro mac_HDRP) simp
  have pr: "PACK (of_nat c - of_nat a) 0 = Tr"
    unfolding Tr_def using a(3) by (simp add: tag_def)
  have "rd (wr ?s3 h2 Tr) h2 = tag (c - a) False" using v Tr_def by (simp add: rd_wr)
  then have ft2: "FTRP (wr ?s3 h2 Tr) (of_nat x2) = of_nat f"
    using x2_def xh h2_def ca16 a f_def
    by (intro mac_FTRP[of x2 h2 _ "c - a" False]) simp_all
  have ev: "place s (of_nat x) (of_nat a) = snd (coalesce ?s5 (of_nat x2))"
    by (simp add: place_def Let_def hx sx cond DSIZE_def pk PUT_wr ft nx hx2 pr ft2
        del: of_nat_add of_nat_diff)
  show "\<exists>Ls'. heap_ok (place s (of_nat x) (of_nat a)) (xs @ (a, True) # (c - a, False) # ys) Ls'"
    unfolding ev using co(1) unfolding cl .
  let ?P = "alloc_words (hd0 s) ?bs"
  have "({h, f1} \<union> cells R \<union> {h2, f}) \<inter> ?P = {}"
  proof -
    have fr: "\<forall>b \<in> set [(c, False)]. \<not> snd b" by simp
    have "{h, f1, h2, f} \<inter> alloc_words (hd0 s) (xs @ [(c, False)] @ ys) = {}"
      using inA by (intro alloc_region_disjoint[OF ok fr _ h_def]) simp
    moreover have "cells R \<inter> ?P = {}"
      using alloc_cells_disjoint[OF okb, of "hd0 s"] cRsub by blast
    ultimately show ?thesis by auto
  qed
  then have k1: "keeps s ?s5 ?P" using keeps_eq_except[OF e] by blast
  have "?P \<subseteq> alloc_words (hd0 ?s5) ((xs @ [(a, True)]) @ (c - a, False) # ys)"
    unfolding h5 using a(3) by (auto simp add: alloc_words_append add.assoc)
  then have k2: "keeps ?s5 (snd (coalesce ?s5 (of_nat x2))) ?P"
    using keeps_mono[OF co(3)] by blast
  show "keeps s (place s (of_nat x) (of_nat a)) ?P"
    unfolding ev using keeps_trans[OF k1 k2] .
  show "hd0 (place s (of_nat x) (of_nat a)) = hd0 s" unfolding ev using co(4) h5 by simp
  show "mem_max_addr (place s (of_nat x) (of_nat a)) = mem_max_addr s"
    unfolding ev using co(5) f3(3) by simp
qed

section \<open>Heap extension\<close>

lemma eq_except_brk: "eq_except s s' A \<Longrightarrow> eq_except s (s'\<lparr>mem_brk := b\<rparr>) A"
  by (simp add: eq_except_def)

lemma hd0_brk [simp]: "hd0 (s\<lparr>mem_brk := b\<rparr>) = hd0 s"
  by (simp add: hd0_def)

lemma word_of_unat64: "unat (w :: 64 word) = n \<Longrightarrow> w = of_nat n"
  by auto

lemma extend_fail:
  assumes "(if w mod 2 \<noteq> 0 then (w + 1) * WSIZE else w * WSIZE) = of_nat z" "z < 2 ^ 64"
    and "unat (mem_max_addr s) < unat (mem_brk s) + z"
  shows "extend_heap s w = (0, s)"
  using assms by (simp add: extend_heap_def mem_sbrk_def unat_of_nat64 Let_def)

lemma extend_ok:
  assumes ho: "heap_ok s bs Ls"
    and w: "(if w mod 2 \<noteq> 0 then (w + 1) * WSIZE else w * WSIZE) = of_nat z"
    and z: "32 \<le> z" "16 dvd z"
    and m: "unat (mem_brk s) + z \<le> unat (mem_max_addr s)"
    and x: "x = hd0 s + total bs + 8"
  shows "\<exists>Ls'. heap_ok (snd (extend_heap s w)) (coalesced bs z []) Ls'"
    and "fst (extend_heap s w)
          = of_nat (x - (if bs \<noteq> [] \<and> \<not> snd (last bs) then fst (last bs) else 0))"
    and "keeps s (snd (extend_heap s w)) (alloc_words (hd0 s) bs)"
    and "hd0 (snd (extend_heap s w)) = hd0 s"
    and "mem_max_addr (snd (extend_heap s w)) = mem_max_addr s"
proof -
  note d = heap_okD[OF ho]
  note b = layout_bounds[OF d(1)] and ld = layoutD[OF d(1)]
  define h where "h = hd0 s + total bs"
  define f where "f = h + z - 8"
  define e where "e = h + z"
  define T where "T = tag z False"
  have xh: "x = h + 8" using x h_def by simp
  have brk: "unat (mem_brk s) = x" using ld(5) x by simp
  have mx: "unat (mem_max_addr s) < 2 ^ 64" using unsigned_less[of "mem_max_addr s"] by simp
  have z64: "z < 2 ^ 64" and e64: "e + 8 < 2 ^ 64" using m mx brk xh e_def by simp_all
  have t8: "8 dvd total bs" using sizes_dvd[OF ld(1)] by (rule dvd_16_8)
  have h8: "8 dvd h" unfolding h_def using b(2) t8 by (rule dvd_add)
  have z8: "8 dvd z" using z(2) by (rule dvd_16_8)
  have v: "va h" "va f" "va e"
    using h8 z8 z(1) e64 unfolding f_def e_def va_def
    by (auto intro!: dvd_add dvd_diff_nat)
  have ne: "h \<noteq> f" "h \<noteq> e" "f \<noteq> e" using z(1) f_def e_def by simp_all
  define s0 where "s0 = s\<lparr>mem_brk := mem_brk s + of_nat z\<rparr>"
  have s0: "heap_listp s0 = heap_listp s" "seg s0 = seg s" "mem_max_addr s0 = mem_max_addr s"
    "mem_brk s0 = mem_brk s + of_nat z" "hd0 s0 = hd0 s"
    by (simp_all add: s0_def)
  let ?s3 = "wr (wr (wr s0 h T) f T) e (PACK 0 1)"
  have e0: "eq_except s s0 {}" by (simp add: eq_except_def s0_def)
  have e3: "eq_except s ?s3 {h, f, e}"
    using eq_except_trans[OF eq_except_trans[OF eq_except_trans[OF e0 eq_except_wr[OF v(1)]]
        eq_except_wr[OF v(2)]] eq_except_wr[OF v(3)], of T T "PACK 0 1"]
    by (simp add: insert_commute)
  have r3: "rd ?s3 h = T" "rd ?s3 f = T" "rd ?s3 e = PACK 0 1"
    using v ne by (simp_all add: rd_wr)
  have h3: "hd0 ?s3 = hd0 s" using s0(5) by simp
  have ge: "\<forall>q \<in> {h, f, e}. h \<le> q" using f_def e_def z(1) by simp
  have hfd: "{h, f, e} \<inter> hf_set (hd0 s) bs = {}"
    using ge hf_set_range[OF ld(1), of _ "hd0 s"] h_def by fastforce
  have cd: "{h, f, e} \<inter> cells (reg Ls) = {}"
    unfolding d(3) using ge cells_range[OF ld(1), of _ "hd0 s"] h_def by fastforce
  have tg: "tags ?s3 (hd0 s) bs"
    using tags_frame[OF e3 hfd ld(1) b(2) _ ld(2)] b(4) by simp
  have pad: "rd ?s3 (hd0 s - 8) = rd s (hd0 s - 8)"
  proof (rule eq_except_rd[OF e3])
    show "va (hd0 s - 8)" using b(1,2,4) by (auto simp add: va_def intro!: dvd_diff_nat)
    show "hd0 s - 8 \<notin> {h, f, e}" using ge b(1) h_def by auto
  qed
  have ub: "unat (mem_brk s + of_nat z) = x + z"
    using brk z64 m mx by (simp add: unat_word_ariths unat_of_nat64)
  have tz: "tags ?s3 h [(z, False)]"
    using r3(1,2) unfolding T_def f_def by simp
  have l3: "layout ?s3 (bs @ (z, False) # [])"
    unfolding layout_def h3
  proof (intro conjI)
    show "16 \<le> unat (heap_listp ?s3)" "16 dvd unat (heap_listp ?s3)"
      using d(1) s0(1) by (simp_all add: layout_def)
    show "rd ?s3 (hd0 s - 8) AND NOT 0xf = 0" unfolding pad using ld(3) .
    show "sizes_ok (bs @ [(z, False)])" using ld(1) z by simp
    show "tags ?s3 (hd0 s) (bs @ [(z, False)])"
      unfolding tags_append using tg tz h_def by simp
    show "unat (mem_brk ?s3) = hd0 s + total (bs @ [(z, False)]) + 8"
      using ub x s0(4) by simp
    have "hd0 s + total (bs @ [(z, False)]) = e" unfolding e_def h_def by simp
    then show "rd ?s3 (hd0 s + total (bs @ [(z, False)])) = PACK 0 1"
      using r3(3) by simp
  qed
  have t3: "table_ok ?s3 Ls" by (rule table_frame[OF d(2) e3 cd]) (simp add: s0(2))
  have hp: "heap_pre ?s3 bs z [] Ls"
    unfolding heap_pre_def h3 using l3 t3 d(3,4)
    by (auto simp add: free_bps_append naf_append)
  have x3: "x = hd0 ?s3 + total bs + 8" using x h3 by simp
  note co = coalesce_ok[OF hp x3]
  \<comment> \<open>what the code computes\<close>
  have bp: "mem_brk s = of_nat x" using brk by (rule word_of_unat64)
  have hx: "HDRP (of_nat x) = of_nat h" using xh by (rule mac_HDRP)
  have pk: "PACK (of_nat z) 0 = T" unfolding T_def by (simp add: tag_def)
  have "rd (wr s0 h T) h = tag z False" using v T_def by (simp add: rd_wr)
  then have ft: "FTRP (wr s0 h T) (of_nat x) = of_nat f"
    using xh z f_def by (intro mac_FTRP[of x h _ z False]) simp_all
  have "rd (wr (wr s0 h T) f T) h = tag z False" using v ne T_def by (simp add: rd_wr)
  then have nx: "NEXT_BLKP (wr (wr s0 h T) f T) (of_nat x) = of_nat (x + z)"
    using xh z by (intro mac_NEXT[of x h _ z False]) simp_all
  have hx2: "HDRP (of_nat (x + z)) = of_nat e" using xh e_def by (intro mac_HDRP) simp
  have sb: "mem_sbrk s (of_nat z) = Some (of_nat x, s0)"
    using m z64 by (simp add: mem_sbrk_def unat_of_nat64 s0_def bp)
  have ev: "extend_heap s w = coalesce ?s3 (of_nat x)"
    using w by (simp add: extend_heap_def sb Let_def hx pk PUT_wr ft nx hx2 del: of_nat_add)
  show "\<exists>Ls'. heap_ok (snd (extend_heap s w)) (coalesced bs z []) Ls'"
    unfolding ev using co(1) .
  show "fst (extend_heap s w)
          = of_nat (x - (if bs \<noteq> [] \<and> \<not> snd (last bs) then fst (last bs) else 0))"
    unfolding ev using co(2) .
  have sub: "alloc_words (hd0 s) bs \<subseteq> alloc_words (hd0 ?s3) (bs @ (z, False) # [])"
    unfolding h3 by (simp add: alloc_words_append)
  have "{h, f, e} \<inter> alloc_words (hd0 s) bs = {}"
    using ge alloc_words_range[OF ld(1), of _ "hd0 s"] h_def by fastforce
  then have k1: "keeps s ?s3 (alloc_words (hd0 s) bs)" using keeps_eq_except[OF e3] by blast
  have k2: "keeps ?s3 (snd (coalesce ?s3 (of_nat x))) (alloc_words (hd0 s) bs)"
    using keeps_mono[OF co(3) sub] .
  show "keeps s (snd (extend_heap s w)) (alloc_words (hd0 s) bs)"
    unfolding ev using keeps_trans[OF k1 k2] .
  show "hd0 (snd (extend_heap s w)) = hd0 s" unfolding ev using co(4) h3 by simp
  show "mem_max_addr (snd (extend_heap s w)) = mem_max_addr s"
    unfolding ev using co(5) s0(3) by simp
qed

section \<open>Allocated blocks\<close>

lemma alloc_blks_append:
  "alloc_blks h (xs @ ys) = alloc_blks h xs \<union> alloc_blks (h + total xs) ys"
  by (induction xs arbitrary: h) (auto simp add: add.assoc)

lemma alloc_blks_range:
  "sizes_ok bs \<Longrightarrow> (x, c) \<in> alloc_blks h bs \<Longrightarrow> h + 8 \<le> x \<and> x + c \<le> h + total bs + 8 \<and> 32 \<le> c"
proof (induction bs arbitrary: h)
  case Nil then show ?case by simp
next
  case (Cons b bs)
  then have b: "32 \<le> fst b" and ok: "sizes_ok bs" by simp_all
  from Cons.prems(2) have "(x = h + 8 \<and> c = fst b) \<or> (x, c) \<in> alloc_blks (h + fst b) bs"
    by (auto split: if_splits)
  then show ?case using b Cons.IH[OF ok, of "h + fst b"] by auto
qed

lemma alloc_blks_split:
  "(x, c) \<in> alloc_blks h bs \<Longrightarrow> \<exists>xs ys. bs = xs @ (c, True) # ys \<and> x = h + total xs + 8"
proof (induction bs arbitrary: h)
  case Nil then show ?case by simp
next
  case (Cons b bs)
  from Cons.prems have "(x = h + 8 \<and> c = fst b \<and> snd b) \<or> (x, c) \<in> alloc_blks (h + fst b) bs"
    by (auto split: if_splits)
  then show ?case
  proof
    assume "x = h + 8 \<and> c = fst b \<and> snd b"
    then have "b # bs = [] @ (c, True) # bs \<and> x = h + total [] + 8" by (cases b) simp
    then show ?thesis by blast
  next
    assume "(x, c) \<in> alloc_blks (h + fst b) bs"
    from Cons.IH[OF this] obtain xs ys where
      "bs = xs @ (c, True) # ys" "x = h + fst b + total xs + 8" by blast
    then have "b # bs = (b # xs) @ (c, True) # ys \<and> x = h + total (b # xs) + 8" by simp
    then show ?thesis by blast
  qed
qed

lemma free_bps_split:
  "x \<in> set (free_bps h bs) \<Longrightarrow> \<exists>xs c ys. bs = xs @ (c, False) # ys \<and> x = h + total xs + 8"
proof (induction bs arbitrary: h)
  case Nil then show ?case by simp
next
  case (Cons b bs)
  from Cons.prems have "(x = h + 8 \<and> \<not> snd b) \<or> x \<in> set (free_bps (h + fst b) bs)"
    by (auto split: if_splits)
  then show ?case
  proof
    assume "x = h + 8 \<and> \<not> snd b"
    then have "b # bs = [] @ (fst b, False) # bs \<and> x = h + total [] + 8" by (cases b) simp
    then show ?thesis by blast
  next
    assume "x \<in> set (free_bps (h + fst b) bs)"
    from Cons.IH[OF this] obtain xs c ys where
      "bs = xs @ (c, False) # ys" "x = h + fst b + total xs + 8" by blast
    then have "b # bs = (b # xs) @ (c, False) # ys \<and> x = h + total (b # xs) + 8" by simp
    then show ?thesis by blast
  qed
qed

lemma alloc_blks_mark:
  "alloc_blks h (xs @ (c, True) # ys) = insert (h + total xs + 8, c) (alloc_blks h (xs @ (c, False) # ys))"
  by (simp add: alloc_blks_append)

lemma alloc_blks_cut:
  "a \<le> c \<Longrightarrow> alloc_blks h (xs @ (a, True) # (c - a, False) # ys)
     = insert (h + total xs + 8, a) (alloc_blks h (xs @ (c, False) # ys))"
  by (simp add: alloc_blks_append add.assoc)

lemma alloc_blks_coalesced:
  "alloc_blks h (coalesced xs sz ys) = alloc_blks h (xs @ (sz, False) # ys)"
proof -
  have a: "xs \<noteq> [] \<Longrightarrow> \<not> snd (last xs) \<Longrightarrow>
      alloc_blks h xs = alloc_blks h (butlast xs) \<and> total xs = total (butlast xs) + fst (last xs)"
    by (cases xs rule: rev_cases) (simp_all add: alloc_blks_append)
  have b: "ys \<noteq> [] \<Longrightarrow> \<not> snd (hd ys) \<Longrightarrow>
      alloc_blks k ys = alloc_blks (k + fst (hd ys)) (tl ys)" for k
    by (cases ys) simp_all
  show ?thesis
    using a b[of "h + total xs + sz"] b[of "h + (total xs + sz)"]
    by (auto simp add: coalesced_def alloc_blks_append Let_def add.assoc)
qed

lemma alloc_blks_notin:
  assumes "sizes_ok xs" "sizes_ok ys" "32 \<le> c"
  shows "(h + total xs + 8, k) \<notin> alloc_blks h (xs @ (c, False) # ys)"
proof
  assume "(h + total xs + 8, k) \<in> alloc_blks h (xs @ (c, False) # ys)"
  then have "(h + total xs + 8, k) \<in> alloc_blks h xs
      \<or> (h + total xs + 8, k) \<in> alloc_blks (h + total xs + c) ys"
    by (simp add: alloc_blks_append)
  then show False
    using alloc_blks_range[OF assms(1), of "h + total xs + 8" k h]
      alloc_blks_range[OF assms(2), of "h + total xs + 8" k "h + total xs + c"] assms(3)
    by auto
qed

lemma alloc_words_blks:
  "alloc_words h bs = (\<Union>(x, c) \<in> alloc_blks h bs. {q. x \<le> q \<and> q + 24 \<le> x + c})"
  by (induction bs arbitrary: h) auto

section \<open>The adjusted size and placement\<close>

lemma adjust_ok:
  assumes n: "n \<noteq> 0" "unat n \<le> 2 ^ 64 - 32"
  shows "adjust n = of_nat (asize_of (unat n))"
    and "32 \<le> asize_of (unat n)" "16 dvd asize_of (unat n)"
    and "unat n + 16 \<le> asize_of (unat n)" "asize_of (unat n) < 2 ^ 64"
proof -
  let ?a = "asize_of (unat n)"
  show "32 \<le> ?a" by (simp add: asize_of_def)
  show "16 dvd ?a" by (simp add: asize_of_def max_def)
  show "unat n + 16 \<le> ?a" unfolding asize_of_def by (simp add: max_def) presburger
  have pos: "0 < unat n" using n(1) by (simp add: unat_gt_0)
  have le: "?a \<le> unat n + 31" using pos unfolding asize_of_def by (simp add: max_def) presburger
  then show lt: "?a < 2 ^ 64" using n(2) by simp
  have u: "unat (n + DSIZE + (DSIZE - 1)) = unat n + 31"
    using n(2) by (simp add: DSIZE_def unat_word_ariths)
  have "unat (adjust n) = ?a"
  proof (cases "n \<le> 16")
    case True
    then have "unat n \<le> 16" by (simp add: word_le_nat_alt)
    then show ?thesis using True unfolding asize_of_def adjust_def
      by (simp add: DSIZE_def max_def) presburger
  next
    case False
    then have g: "16 < unat n" by (simp add: word_le_nat_alt)
    have d: "unat ((n + DSIZE + (DSIZE - 1)) div DSIZE) = (unat n + 31) div 16"
      using u by (simp add: unat_div DSIZE_def)
    have "16 * ((unat n + 31) div 16) < 2 ^ 64" using n(2) by simp
    then have "unat (DSIZE * ((n + DSIZE + (DSIZE - 1)) div DSIZE)) = 16 * ((unat n + 31) div 16)"
      using d by (simp add: unat_word_ariths DSIZE_def)
    then show ?thesis using False g unfolding asize_of_def adjust_def
      by (simp add: DSIZE_def max_def) presburger
  qed
  then show "adjust n = of_nat ?a" by (rule word_of_unat64)
qed

lemma words_of_asize:
  assumes a: "32 \<le> a" "16 dvd a" "a < 2 ^ 64"
    and w: "w = MAX_sz (of_nat a) CHUNKSIZE div WSIZE"
  shows "(if w mod 2 \<noteq> 0 then (w + 1) * WSIZE else w * WSIZE) = of_nat a"
proof -
  from a(2) obtain k where k: "a = 16 * k" by (elim dvdE)
  have ua: "unat (of_nat a :: 64 word) = a" using a(3) by (rule unat_of_nat64)
  have m: "MAX_sz (of_nat a) CHUNKSIZE = (of_nat a :: 64 word)"
  proof (cases "a = 32")
    case True then show ?thesis by (simp add: MAX_sz_def CHUNKSIZE_def)
  next
    case False
    then have "unat (32 :: 64 word) < unat (of_nat a :: 64 word)" using a(1) ua by simp
    then have "(32 :: 64 word) < of_nat a" by (simp only: word_less_nat_alt)
    then show ?thesis by (simp add: MAX_sz_def CHUNKSIZE_def)
  qed
  have uw: "unat w = 2 * k" unfolding w m using ua k by (simp add: unat_div WSIZE_def)
  then have "w = of_nat (2 * k)" by (rule word_of_unat64)
  then have e: "w * WSIZE = of_nat a" using k by (simp add: WSIZE_def)
  have "unat (w mod 2) = 0" using uw by (simp add: unat_mod)
  then have "w mod 2 = 0" by (simp add: unat_eq_0)
  then show ?thesis using e by simp
qed

lemma place_ok:
  assumes ho: "heap_ok s (xs @ (c, False) # ys) Ls" and x: "x = hd0 s + total xs + 8"
    and a: "32 \<le> a" "16 dvd a" "a \<le> c"
  shows "\<exists>bs' Ls' c'. heap_ok (place s (of_nat x) (of_nat a)) bs' Ls' \<and> a \<le> c'
           \<and> alloc_blks (hd0 s) bs' = insert (x, c') (alloc_blks (hd0 s) (xs @ (c, False) # ys))
           \<and> (x, c') \<notin> alloc_blks (hd0 s) (xs @ (c, False) # ys)"
    and "keeps s (place s (of_nat x) (of_nat a)) (alloc_words (hd0 s) (xs @ (c, False) # ys))"
    and "hd0 (place s (of_nat x) (of_nat a)) = hd0 s"
    and "mem_max_addr (place s (of_nat x) (of_nat a)) = mem_max_addr s"
proof -
  note d = heap_okD[OF ho]
  have ok: "sizes_ok xs" "sizes_ok ys" "32 \<le> c" using layoutD(1)[OF d(1)] by simp_all
  note ni = alloc_blks_notin[OF ok, of "hd0 s"]
  let ?s' = "place s (of_nat x) (of_nat a)"
  have "(\<exists>bs' Ls' c'. heap_ok ?s' bs' Ls' \<and> a \<le> c'
           \<and> alloc_blks (hd0 s) bs' = insert (x, c') (alloc_blks (hd0 s) (xs @ (c, False) # ys))
           \<and> (x, c') \<notin> alloc_blks (hd0 s) (xs @ (c, False) # ys))
        \<and> keeps s ?s' (alloc_words (hd0 s) (xs @ (c, False) # ys))
        \<and> hd0 ?s' = hd0 s \<and> mem_max_addr ?s' = mem_max_addr s"
  proof (cases "32 \<le> c - a")
    case True
    note p = place_split[OF ho x a True]
    from p(1) obtain Ls' where "heap_ok ?s' (xs @ (a, True) # (c - a, False) # ys) Ls'" ..
    with alloc_blks_cut[OF a(3), of "hd0 s" xs ys] ni[of a] x
    have "heap_ok ?s' (xs @ (a, True) # (c - a, False) # ys) Ls' \<and> a \<le> a
        \<and> alloc_blks (hd0 s) (xs @ (a, True) # (c - a, False) # ys)
            = insert (x, a) (alloc_blks (hd0 s) (xs @ (c, False) # ys))
        \<and> (x, a) \<notin> alloc_blks (hd0 s) (xs @ (c, False) # ys)" by simp
    then show ?thesis using p(2,3,4) by blast
  next
    case False
    then have lt: "c - a < 32" by simp
    note p = place_whole[OF ho x a(3) lt]
    from p(1) obtain Ls' where "heap_ok ?s' (xs @ (c, True) # ys) Ls'" ..
    with alloc_blks_mark[of "hd0 s" xs c ys] ni[of c] x a(3)
    have "heap_ok ?s' (xs @ (c, True) # ys) Ls' \<and> a \<le> c
        \<and> alloc_blks (hd0 s) (xs @ (c, True) # ys)
            = insert (x, c) (alloc_blks (hd0 s) (xs @ (c, False) # ys))
        \<and> (x, c) \<notin> alloc_blks (hd0 s) (xs @ (c, False) # ys)" by simp
    then show ?thesis using p(2,3,4) by blast
  qed
  then show "\<exists>bs' Ls' c'. heap_ok ?s' bs' Ls' \<and> a \<le> c'
           \<and> alloc_blks (hd0 s) bs' = insert (x, c') (alloc_blks (hd0 s) (xs @ (c, False) # ys))
           \<and> (x, c') \<notin> alloc_blks (hd0 s) (xs @ (c, False) # ys)"
    and "keeps s ?s' (alloc_words (hd0 s) (xs @ (c, False) # ys))"
    and "hd0 ?s' = hd0 s" and "mem_max_addr ?s' = mem_max_addr s" by blast+
qed

lemma alloc_words_mark_free:
  "alloc_words h (xs @ (c, False) # ys) \<subseteq> alloc_words h (xs @ (c, True) # ys)"
  by (auto simp add: alloc_words_append)

lemma alloc_words_coalesced:
  "alloc_words h (coalesced xs sz ys) = alloc_words h (xs @ (sz, False) # ys)"
  unfolding alloc_words_blks alloc_blks_coalesced ..

section \<open>Allocation\<close>

lemma fits_size:
  assumes l: "layout s (xs @ (c, al) # ys)" and x: "x = hd0 s + total xs + 8" and a: "a < 2 ^ 64"
  shows "fits s (of_nat a) x = (a \<le> c)"
proof -
  note k = layout_block[OF l refl]
  have c: "c < 2 ^ 64" using k(8) by simp
  have "HDRP (of_nat x) = of_nat (hd0 s + total xs)" using x by (rule mac_HDRP)
  moreover have "GET_SIZE s (of_nat (hd0 s + total xs)) = of_nat c"
    using k(1,4) by (intro mac_size) simp_all
  ultimately show ?thesis
    using a c by (simp add: fits_def word_le_nat_alt unat_of_nat64)
qed

lemma payload_nonzero:
  assumes l: "layout s (xs @ b # ys)" and x: "x = hd0 s + total xs + 8"
  shows "(of_nat x :: 64 word) \<noteq> 0" "unat (of_nat x :: 64 word) = x"
proof -
  note k = layout_block[OF l refl]
  have "x < 2 ^ 64" "0 < x" using k(3,8) x by simp_all
  then show "unat (of_nat x :: 64 word) = x" by (simp add: unat_of_nat64)
  with \<open>0 < x\<close> show "(of_nat x :: 64 word) \<noteq> 0" by (auto simp add: unat_eq_0[symmetric] simp del: unat_eq_0)
qed

lemma malloc_ok:
  assumes ho: "heap_ok s bs Ls" and n: "n \<noteq> 0" "unat n \<le> 2 ^ 64 - 32"
    and a: "a = asize_of (unat n)"
  shows "\<exists>p s'. malloc s n = Some (p, s') \<and>
      (if p = 0 then s' = s \<and> find_fit s (adjust n) = Some 0 \<and> mem_sbrk s (adjust n) = None
       else (find_fit s (adjust n) = Some 0 \<longrightarrow> mem_sbrk s (adjust n) \<noteq> None)
          \<and> (\<exists>bs' Ls' c. heap_ok s' bs' Ls' \<and> a \<le> c
               \<and> alloc_blks (hd0 s) bs' = insert (unat p, c) (alloc_blks (hd0 s) bs)
               \<and> (unat p, c) \<notin> alloc_blks (hd0 s) bs)
          \<and> keeps s s' (alloc_words (hd0 s) bs) \<and> hd0 s' = hd0 s
          \<and> mem_max_addr s' = mem_max_addr s)"
proof -
  note d = heap_okD[OF ho]
  note aj = adjust_ok[OF n, folded a]
  from find_fit_result[OF d(2), of "of_nat a"] obtain r where
    r: "find_fit s (of_nat a) = Some r" "r = 0 \<or> (\<exists>x \<in> reg Ls. r = of_nat x \<and> fits s (of_nat a) x)"
    by blast
  from r(2) show ?thesis
  proof
    assume "\<exists>x \<in> reg Ls. r = of_nat x \<and> fits s (of_nat a) x"
    then obtain x where xr: "x \<in> reg Ls" and rx: "r = of_nat x" and ft: "fits s (of_nat a) x"
      by blast
    from xr have "x \<in> set (free_bps (hd0 s) bs)" using d(3) by simp
    from free_bps_split[OF this] obtain xs c ys where
      bs: "bs = xs @ (c, False) # ys" and x: "x = hd0 s + total xs + 8" by blast
    have ac: "a \<le> c" using fits_size[OF d(1)[unfolded bs] x aj(5)] ft by simp
    note nz = payload_nonzero[OF d(1)[unfolded bs] x]
    note p = place_ok[OF ho[unfolded bs] x aj(2,3) ac]
    have m: "malloc s n = Some (of_nat x, place s (of_nat x) (of_nat a))"
      using n(1) r(1) rx nz(1) by (simp add: malloc_def aj(1) Let_def)
    show ?thesis
      unfolding m using p nz r(1) rx unfolding bs aj(1) by simp
  next
    assume r0: "r = 0"
    define w where "w = MAX_sz (of_nat a :: 64 word) CHUNKSIZE div WSIZE"
    note wa = words_of_asize[OF aj(2,3,5) w_def]
    have ua: "unat (of_nat a :: 64 word) = a" using aj(5) by (rule unat_of_nat64)
    show ?thesis
    proof (cases "unat (mem_brk s) + a \<le> unat (mem_max_addr s)")
      case False
      then have f: "unat (mem_max_addr s) < unat (mem_brk s) + a" by simp
      have sb: "mem_sbrk s (of_nat a) = None" using f by (simp add: mem_sbrk_def ua)
      have "malloc s n = Some (0, s)"
        using n(1) r(1) r0 extend_fail[OF wa aj(5) f]
        by (simp add: malloc_def aj(1) Let_def w_def)
      then show ?thesis using r(1) r0 sb unfolding aj(1) by simp
    next
      case True
      then have sb: "mem_sbrk s (of_nat a) \<noteq> None" by (simp add: mem_sbrk_def ua)
      define x0 where "x0 = hd0 s + total bs + 8"
      define s1 where "s1 = snd (extend_heap s w)"
      define pz where "pz = (if bs \<noteq> [] \<and> \<not> snd (last bs) then fst (last bs) else 0)"
      define xs where "xs = (if bs \<noteq> [] \<and> \<not> snd (last bs) then butlast bs else bs)"
      note ex = extend_ok[OF ho wa aj(2,3) True x0_def, folded s1_def pz_def]
      from ex(1) obtain Ls1 where h1: "heap_ok s1 (coalesced bs a []) Ls1" ..
      have cs: "coalesced bs a [] = xs @ (pz + a, False) # []"
        by (simp add: coalesced_def xs_def pz_def)
      have tx: "total bs = total xs + pz"
        unfolding xs_def pz_def by (cases bs rule: rev_cases) simp_all
      have x1: "x0 - pz = hd0 s1 + total xs + 8" unfolding ex(4) x0_def tx by simp
      have h1': "heap_ok s1 (xs @ (pz + a, False) # []) Ls1" using h1 unfolding cs .
      note l1 = heap_okD(1)[OF h1']
      note nz = payload_nonzero[OF l1 x1]
      note p = place_ok[OF h1' x1 aj(2,3), unfolded ex(4)]
      have ab: "alloc_blks (hd0 s) (xs @ (pz + a, False) # []) = alloc_blks (hd0 s) bs"
        using alloc_blks_coalesced[of "hd0 s" bs a "[]"] unfolding cs
        by (simp add: alloc_blks_append)
      have aw: "alloc_words (hd0 s) (xs @ (pz + a, False) # []) = alloc_words (hd0 s) bs"
        unfolding alloc_words_blks ab ..
      have eh: "extend_heap s w = (of_nat (x0 - pz), s1)"
        using ex(2) s1_def by (simp add: prod_eq_iff)
      have m: "malloc s n = Some (of_nat (x0 - pz), place s1 (of_nat (x0 - pz)) (of_nat a))"
        using n(1) r(1) r0 nz(1) eh
        by (simp add: malloc_def aj(1) Let_def w_def[symmetric])
      have kp: "keeps s (place s1 (of_nat (x0 - pz)) (of_nat a)) (alloc_words (hd0 s) bs)"
        using keeps_trans[OF ex(3) p(2)[unfolded aw]] by simp
      show ?thesis
        unfolding m using p(1,3,4) kp nz sb ex(5) unfolding ab aj(1) by simp
    qed
  qed
qed

section \<open>Null results\<close>

lemma adjust_dvd: "16 dvd unat (adjust n)"
proof (cases "n \<le> DSIZE")
  case True
  then show ?thesis by (simp add: adjust_def DSIZE_def)
next
  case False
  have "unat (16 * k :: 64 word) = (16 * unat k) mod 2 ^ 64" for k
    by (simp add: unat_word_ariths)
  moreover have "(16::nat) dvd (16 * m) mod 2 ^ 64" for m
    by (simp add: dvd_mod_iff)
  ultimately show ?thesis using False by (simp add: adjust_def DSIZE_def)
qed

lemma words_of_max:
  assumes a: "16 dvd unat v" and w: "w = MAX_sz v CHUNKSIZE div WSIZE"
  shows "(if w mod 2 \<noteq> 0 then (w + 1) * WSIZE else w * WSIZE) = MAX_sz v CHUNKSIZE"
    and "32 \<le> unat (MAX_sz v CHUNKSIZE)" "16 dvd unat (MAX_sz v CHUNKSIZE)"
proof -
  let ?m = "MAX_sz v CHUNKSIZE"
  show m32: "32 \<le> unat ?m" by (simp add: MAX_sz_def CHUNKSIZE_def word_less_nat_alt)
  show md: "16 dvd unat ?m" using a by (simp add: MAX_sz_def CHUNKSIZE_def)
  then obtain k where k: "unat ?m = 16 * k" by (elim dvdE)
  have uw: "unat w = 2 * k" unfolding w using k by (simp add: unat_div WSIZE_def)
  then have "w = of_nat (2 * k)" by (rule word_of_unat64)
  moreover have "?m = of_nat (16 * k)" using k by (rule word_of_unat64)
  ultimately have e: "w * WSIZE = ?m" by (simp add: WSIZE_def)
  have "unat (w mod 2) = 0" using uw by (simp add: unat_mod)
  then have "w mod 2 = 0" by (simp add: unat_eq_0)
  then show "(if w mod 2 \<noteq> 0 then (w + 1) * WSIZE else w * WSIZE) = ?m" using e by simp
qed

lemma malloc_null:
  assumes ho: "heap_ok s bs Ls"
  shows "\<exists>p s'. malloc s n = Some (p, s')
      \<and> (p = 0) = (n = 0 \<or> (find_fit s (adjust n) = Some 0
                             \<and> mem_sbrk s (MAX_sz (adjust n) CHUNKSIZE) = None))
      \<and> (p = 0 \<longrightarrow> s' = s)"
proof (cases "n = 0")
  case True
  then show ?thesis by (simp add: malloc_def)
next
  case n: False
  note d = heap_okD[OF ho]
  from find_fit_result[OF d(2), of "adjust n"] obtain r where
    r: "find_fit s (adjust n) = Some r"
       "r = 0 \<or> (\<exists>x \<in> reg Ls. r = of_nat x \<and> fits s (adjust n) x)"
    by blast
  from r(2) show ?thesis
  proof
    assume "\<exists>x \<in> reg Ls. r = of_nat x \<and> fits s (adjust n) x"
    then obtain x where xr: "x \<in> reg Ls" and rx: "r = of_nat x" by blast
    have "cell x" using free_cell[OF d(1)] xr d(3) by simp
    then have nz: "(of_nat x :: 64 word) \<noteq> 0" by (rule cell_nonzero)
    then show ?thesis using n r(1) rx by (simp add: malloc_def Let_def)
  next
    assume r0: "r = 0"
    define w where "w = MAX_sz (adjust n) CHUNKSIZE div WSIZE"
    define z where "z = unat (MAX_sz (adjust n) CHUNKSIZE)"
    note wm = words_of_max[OF adjust_dvd w_def, folded z_def]
    have zw: "MAX_sz (adjust n) CHUNKSIZE = of_nat z" unfolding z_def by simp
    have z64: "z < 2 ^ 64" unfolding z_def using unsigned_less[of "MAX_sz (adjust n) CHUNKSIZE"] by simp
    note wz = wm(1)[unfolded zw]
    show ?thesis
    proof (cases "unat (mem_brk s) + z \<le> unat (mem_max_addr s)")
      case False
      then have f: "unat (mem_max_addr s) < unat (mem_brk s) + z" by simp
      have sb: "mem_sbrk s (MAX_sz (adjust n) CHUNKSIZE) = None"
        using f by (simp add: mem_sbrk_def z_def)
      have "malloc s n = Some (0, s)"
        using n r(1) r0 extend_fail[OF wz z64 f]
        by (simp add: malloc_def Let_def w_def)
      then show ?thesis using r(1) r0 sb by simp
    next
      case True
      then have sb: "mem_sbrk s (MAX_sz (adjust n) CHUNKSIZE) \<noteq> None"
        by (simp add: mem_sbrk_def z_def)
      define pz where "pz = (if bs \<noteq> [] \<and> \<not> snd (last bs) then fst (last bs) else 0)"
      define xs where "xs = (if bs \<noteq> [] \<and> \<not> snd (last bs) then butlast bs else bs)"
      define s1 where "s1 = snd (extend_heap s w)"
      note ex = extend_ok[OF ho wz wm(2,3) True refl, folded s1_def pz_def]
      from ex(1) obtain Ls1 where h1: "heap_ok s1 (coalesced bs z []) Ls1" ..
      have cs: "coalesced bs z [] = xs @ (pz + z, False) # []"
        by (simp add: coalesced_def xs_def pz_def)
      have tx: "total bs = total xs + pz"
        unfolding xs_def pz_def by (cases bs rule: rev_cases) simp_all
      have x1: "hd0 s + total bs + 8 - pz = hd0 s1 + total xs + 8" unfolding ex(4) tx by simp
      note nz = payload_nonzero[OF heap_okD(1)[OF h1[unfolded cs]] x1]
      have eh: "extend_heap s w = (of_nat (hd0 s + total bs + 8 - pz), s1)"
        using ex(2) s1_def by (simp add: prod_eq_iff)
      show ?thesis
        using n r(1) r0 nz(1) eh sb by (simp add: malloc_def Let_def w_def[symmetric])
    qed
  qed
qed

section \<open>The concrete heaps are well formed\<close>

lemma rd_heap1:
  "rd heap1 4096 = 0" "rd heap1 4104 = 256" "rd heap1 4112 = 0" "rd heap1 4120 = 0"
  "rd heap1 4352 = 256" "rd heap1 4360 = 1"
  by (simp_all add: rd_def heap1_def GET_rec load64_store64 load64_zero)

lemma heap1_fields:
  "heap_listp heap1 = 4112" "mem_brk heap1 = 4368" "mem_max_addr heap1 = 8192"
  "seg heap1 = (\<lambda>_. 0)(4 := 4112)" "hd0 heap1 = 4104"
  by (simp_all add: heap1_def hd0_def)

lemma heap1_table: "table_ok heap1 lists1"
  by (auto simp add: table_ok_def lists1_def heap1_fields rd_heap1 cell_def)

lemma heap1_ok: "heap_ok heap1 [(256, False)] lists1"
  unfolding heap_ok_def layout_def
  by (simp add: heap1_table heap1_fields rd_heap1 sizes_ok_def tag_def PACK_def total_def)
     (auto simp add: reg_def lists1_def)

lemma malloc_heap1: "malloc heap1 1 = Some (4112, heap2)"
  by (simp add: heap1_def heap2_def eval_defs fun_eq_iff)

lemma rd_heap2:
  "rd heap2 4096 = 0" "rd heap2 4104 = 33" "rd heap2 4128 = 33" "rd heap2 4136 = 224"
  "rd heap2 4144 = 0" "rd heap2 4152 = 0" "rd heap2 4352 = 224" "rd heap2 4360 = 1"
  by (simp_all add: rd_def heap2_def heap1_def GET_rec load64_store64 load64_zero)

lemma heap2_fields:
  "heap_listp heap2 = 4112" "mem_brk heap2 = 4368" "mem_max_addr heap2 = 8192"
  "seg heap2 = (\<lambda>_. 0)(3 := 4144)" "hd0 heap2 = 4104"
  by (simp_all add: heap2_def hd0_def)

lemma heap2_table: "table_ok heap2 lists2"
  by (auto simp add: table_ok_def lists2_def heap2_fields rd_heap2 cell_def)

lemma heap2_ok: "heap_ok heap2 [(32, True), (224, False)] lists2"
  unfolding heap_ok_def layout_def
  by (simp add: heap2_table heap2_fields rd_heap2 sizes_ok_def tag_def PACK_def total_def)
     (auto simp add: reg_def lists2_def)

section \<open>Bytes and words\<close>

lemma load64_byte:
  assumes "load64 m q = load64 m' q" "j < 8"
  shows "m (q + of_nat j) = m' (q + of_nat j)"
proof (rule bit_word_eqI)
  fix b assume "b < LENGTH(8)"
  then have b: "b < 8" by simp
  have "(8 * j + b) div 8 = j" "(8 * j + b) mod 8 = b" "8 * j + b < 64"
    using b assms(2) by simp_all
  then have "bit (load64 m q) (8 * j + b) = bit (m (q + of_nat j)) b"
    "bit (load64 m' q) (8 * j + b) = bit (m' (q + of_nat j)) b"
    by (simp_all add: bit_load64)
  then show "bit (m (q + of_nat j)) b = bit (m' (q + of_nat j)) b" using assms(1) by simp
qed

lemma rd_byte:
  assumes "rd s' q = rd s q" "q \<le> i" "i < q + 8"
  shows "mem s' (of_nat i) = mem s (of_nat i)"
proof -
  have "load64 (mem s') (of_nat q) = load64 (mem s) (of_nat q)"
    using assms(1) by (simp add: rd_def GET_def)
  from load64_byte[OF this, of "i - q"] show ?thesis using assms(2,3) by simp
qed

lemma memcpy_fields [simp]:
  "seg (memcpy s d r k) = seg s" "heap_listp (memcpy s d r k) = heap_listp s"
  "mem_brk (memcpy s d r k) = mem_brk s" "mem_max_addr (memcpy s d r k) = mem_max_addr s"
  "hd0 (memcpy s d r k) = hd0 s"
  by (simp_all add: memcpy_def hd0_def)

lemma memcpy_inside:
  assumes "i < k" "k < 2 ^ 64"
  shows "mem (memcpy s (of_nat p) (of_nat x) (of_nat k)) (of_nat (p + i)) = mem s (of_nat (x + i))"
proof -
  have "(of_nat i :: 64 word) < of_nat k"
    using assms by (simp add: word_less_nat_alt unat_of_nat64)
  then show ?thesis by (simp add: memcpy_def)
qed

lemma rd_memcpy_out:
  assumes "q + 8 \<le> 2 ^ 64" "p + k \<le> 2 ^ 64" "0 < k" "q + 8 \<le> p \<or> p + k \<le> q"
    and "k < 2 ^ 64"
  shows "rd (memcpy s (of_nat p) r (of_nat k)) q = rd s q"
proof -
  have "q < 2 ^ 64" "p < 2 ^ 64" using assms(1,2,3) by linarith+
  then have u: "unat (of_nat q :: 64 word) = q" "unat (of_nat p :: 64 word) = p"
    "unat (of_nat k :: 64 word) = k"
    using assms(5) by (simp_all add: unat_of_nat64)
  from assms(4) have "(of_nat k :: 64 word) \<le> of_nat q - of_nat p
      \<and> (8 :: 64 word) \<le> of_nat p - of_nat q"
  proof
    assume a: "q + 8 \<le> p"
    then have "\<not> p \<le> q" "q \<le> p" by simp_all
    then show ?thesis
      unfolding word_le_nat_alt unat_sub_if' u using a assms(1,2) unfolding pow64
      by simp linarith
  next
    assume a: "p + k \<le> q"
    then have "p \<le> q" "\<not> q \<le> p \<or> q = p" by auto
    then show ?thesis
      unfolding word_le_nat_alt unat_sub_if' u using a assms(1,2,3) unfolding pow64 by auto
  qed
  then show ?thesis unfolding rd_def by (simp add: GET_memcpy_disj)
qed

section \<open>Copying into an allocated block\<close>

lemma blk_facts:
  assumes l: "layout s bs" and b: "(x, c) \<in> alloc_blks (hd0 s) bs"
  shows "16 dvd x" "16 dvd c" "32 \<le> c" "hd0 s + 8 \<le> x" "x + c \<le> hd0 s + total bs + 8"
    "x + c < 2 ^ 64 + 8" "rd s (x - 8) = tag c True" "(of_nat x :: 64 word) \<noteq> 0"
    "unat (of_nat x :: 64 word) = x"
proof -
  from alloc_blks_split[OF b] obtain xs ys where
    bs: "bs = xs @ (c, True) # ys" and x: "x = hd0 s + total xs + 8" by blast
  note k = layout_block[OF l[unfolded bs] refl]
  show "16 dvd x" using k(6) x by simp
  show "16 dvd c" "32 \<le> c" using k(3,4) by simp_all
  show "hd0 s + 8 \<le> x" using x by simp
  show "x + c \<le> hd0 s + total bs + 8" using x bs by simp
  show "x + c < 2 ^ 64 + 8" using k(8) x by simp
  show "rd s (x - 8) = tag c True" using k(1) x by simp
  show "(of_nat x :: 64 word) \<noteq> 0" "unat (of_nat x :: 64 word) = x"
    using payload_nonzero[OF l[unfolded bs] x] .
qed

lemma word_in_blk:
  assumes "(x, c) \<in> alloc_blks h bs" "16 dvd c" "i + 16 < c"
  shows "x + 8 * (i div 8) \<in> alloc_words h bs"
proof -
  from assms(2) obtain m where m: "c = 16 * m" by (elim dvdE)
  have "8 * (i div 8) + 24 \<le> c" using assms(3) unfolding m by presburger
  then have "x \<le> x + 8 * (i div 8) \<and> x + 8 * (i div 8) + 24 \<le> x + c" by simp
  then show ?thesis unfolding alloc_words_blks using assms(1) by blast
qed

lemma memcpy_heap_ok:
  assumes ho: "heap_ok s bs Ls" and b: "(p, c) \<in> alloc_blks (hd0 s) bs"
    and k: "0 < k" "k + 16 \<le> c"
  shows "heap_ok (memcpy s (of_nat p) r (of_nat k)) bs Ls"
    and "eq_except s (memcpy s (of_nat p) r (of_nat k)) {q. p \<le> q \<and> q + 24 \<le> p + c}"
proof -
  note d = heap_okD[OF ho]
  note f = blk_facts[OF d(1) b]
  note lb = layout_bounds[OF d(1)] and ld = layoutD[OF d(1)]
  let ?s' = "memcpy s (of_nat p) r (of_nat k)"
  let ?A = "{q. p \<le> q \<and> q + 24 \<le> p + c}"
  have p8: "8 dvd p" and c8: "8 dvd c" using f(1,2) by (simp_all add: dvd_16_8)
  have pk: "p + k \<le> 2 ^ 64" "k < 2 ^ 64" using f(5) lb(4) k(2) by simp_all
  show e: "eq_except s ?s' ?A"
    unfolding eq_except_def
  proof (intro allI impI)
    fix q assume v: "va q" and q: "q \<notin> ?A"
    from v have q8: "8 dvd q" by (simp add: va_def)
    from q have "q < p \<or> p + c < q + 24" by auto
    then have "q + 8 \<le> p \<or> p + k \<le> q"
    proof
      assume "q < p"
      then have "q + 8 \<le> p" using q8 p8 by (elim dvdE) simp
      then show ?thesis ..
    next
      assume a: "p + c < q + 24"
      have "p + c \<le> q + 16" using a q8 p8 c8 by (elim dvdE) (simp, presburger)
      then have "p + k \<le> q" using k(2) by simp
      then show ?thesis ..
    qed
    then show "rd ?s' q = rd s q" using rd_memcpy_out[OF va_le[OF v] pk(1) k(1) _ pk(2)] by simp
  qed
  have sub: "?A \<subseteq> alloc_words (hd0 s) bs" unfolding alloc_words_blks using b by blast
  have l': "layout ?s' bs"
  proof (rule layout_frame[OF d(1) e])
    show "?A \<inter> hf_set (hd0 s) bs = {}" using alloc_hf_disjoint[OF ld(1), of "hd0 s"] sub by blast
    show "hd0 s - 8 \<notin> ?A" using f(4) by auto
    show "hd0 s + total bs \<notin> ?A" using f(5) by auto
  qed simp_all
  have t': "table_ok ?s' Ls"
  proof (rule table_frame[OF d(2) e])
    show "?A \<inter> cells (reg Ls) = {}"
      unfolding d(3) using alloc_cells_disjoint[OF ld(1), of "hd0 s"] sub by blast
  qed simp
  show "heap_ok ?s' bs Ls" unfolding heap_ok_def using l' t' d(3,4) by simp
qed

section \<open>Reallocation\<close>

lemma MIN_sz_nat:
  assumes "a < 2 ^ 64"
  shows "MIN_sz (of_nat a) n = of_nat (min a (unat n))"
proof -
  have u: "unat (of_nat a :: 64 word) = a" using assms by (rule unat_of_nat64)
  show ?thesis
  proof (cases "a < unat n")
    case True
    then have "(of_nat a :: 64 word) < n" by (simp add: word_less_nat_alt u)
    then show ?thesis using True by (simp add: MIN_sz_def)
  next
    case False
    then have "\<not> (of_nat a :: 64 word) < n" by (simp add: word_less_nat_alt u)
    then show ?thesis using False by (simp add: MIN_sz_def min_def)
  qed
qed

lemma realloc_ok:
  assumes ho: "heap_ok s bs Ls" and old: "(x, c) \<in> alloc_blks (hd0 s) bs"
    and n: "n \<noteq> 0" "unat n \<le> 2 ^ 64 - 32"
    and r: "realloc s (of_nat x) n = Some (p, s')" and p: "p \<noteq> 0"
  shows "\<exists>s1. malloc s n = Some (p, s1)
            \<and> s' = free (memcpy s1 p (of_nat x) (of_nat (min (c - 8) (unat n)))) (of_nat x)"
    and "\<exists>bs' Ls' c'. heap_ok s' bs' Ls' \<and> asize_of (unat n) \<le> c'
            \<and> alloc_blks (hd0 s) bs' = insert (unat p, c') (alloc_blks (hd0 s) bs - {(x, c)})
            \<and> (unat p, c') \<notin> alloc_blks (hd0 s) bs"
    and "\<forall>i < min (c - 16) (unat n). mem s' (p + of_nat i) = mem s (of_nat x + of_nat i)"
    and "hd0 s' = hd0 s"
proof -
  note d = heap_okD[OF ho]
  note fo = blk_facts[OF d(1) old]
  note aj = adjust_ok[OF n]
  define k where "k = min (c - 8) (unat n)"
  define pn where "pn = unat p"
  have pp: "p = of_nat pn" unfolding pn_def by simp
  have npos: "0 < unat n" using n(1) by (simp add: unat_gt_0)
  have kpos: "0 < k" using npos fo(3) by (simp add: k_def)
  from malloc_ok[OF ho n refl] obtain p1 s1 where
    m: "malloc s n = Some (p1, s1)" and
    mr: "if p1 = 0 then s1 = s \<and> find_fit s (adjust n) = Some 0 \<and> mem_sbrk s (adjust n) = None
          else (find_fit s (adjust n) = Some 0 \<longrightarrow> mem_sbrk s (adjust n) \<noteq> None)
            \<and> (\<exists>bs' Ls' c. heap_ok s1 bs' Ls' \<and> asize_of (unat n) \<le> c
               \<and> alloc_blks (hd0 s) bs' = insert (unat p1, c) (alloc_blks (hd0 s) bs)
               \<and> (unat p1, c) \<notin> alloc_blks (hd0 s) bs)
            \<and> keeps s s1 (alloc_words (hd0 s) bs) \<and> hd0 s1 = hd0 s
            \<and> mem_max_addr s1 = mem_max_addr s" by blast
  have re: "realloc s (of_nat x) n =
      Some (p1, free (memcpy s1 p1 (of_nat x)
                       (MIN_sz (GET_SIZE s1 (HDRP (of_nat x)) - WSIZE) n)) (of_nat x))"
    using m fo(8) n(1) by (simp add: realloc_def Let_def)
  from r re have p1: "p1 = p"
    and s': "s' = free (memcpy s1 p (of_nat x)
                       (MIN_sz (GET_SIZE s1 (HDRP (of_nat x)) - WSIZE) n)) (of_nat x)" by auto
  from mr p p1 obtain bs1 Ls1 c' where
    h1: "heap_ok s1 bs1 Ls1" and ac: "asize_of (unat n) \<le> c'"
    and ab: "alloc_blks (hd0 s) bs1 = insert (pn, c') (alloc_blks (hd0 s) bs)"
    and nw: "(pn, c') \<notin> alloc_blks (hd0 s) bs"
    and k1: "keeps s s1 (alloc_words (hd0 s) bs)" and hd1: "hd0 s1 = hd0 s"
    unfolding pn_def by auto
  note d1 = heap_okD[OF h1]
  have old1: "(x, c) \<in> alloc_blks (hd0 s1) bs1" and new1: "(pn, c') \<in> alloc_blks (hd0 s1) bs1"
    unfolding hd1 ab using old by simp_all
  note f1 = blk_facts[OF d1(1) old1] and fn = blk_facts[OF d1(1) new1]
  have hx: "HDRP (of_nat x) = of_nat (x - 8)" using fo(4) by (intro mac_HDRP) simp
  have gs: "GET_SIZE s1 (HDRP (of_nat x)) = of_nat c"
    unfolding hx using f1(7) f1(2) by (rule mac_size)
  have c64: "c - 8 < 2 ^ 64" using fo(6) by simp
  have "(of_nat c :: 64 word) - WSIZE = of_nat (c - 8)" using fo(3) by (simp add: WSIZE_def)
  then have mk: "MIN_sz (GET_SIZE s1 (HDRP (of_nat x)) - WSIZE) n = of_nat k"
    unfolding gs k_def using MIN_sz_nat[OF c64] by simp
  define s2 where "s2 = memcpy s1 (of_nat pn) (of_nat x) (of_nat k)"
  have s'2: "s' = free s2 (of_nat x)" unfolding s' mk s2_def pp ..
  show "\<exists>s1. malloc s n = Some (p, s1)
            \<and> s' = free (memcpy s1 p (of_nat x) (of_nat (min (c - 8) (unat n)))) (of_nat x)"
    using m p1 s' mk k_def by auto
  have kc: "k + 16 \<le> c'" using aj(4) ac by (simp add: k_def)
  have k64: "k < 2 ^ 64" using c64 by (simp add: k_def)
  note mh = memcpy_heap_ok[OF h1 new1 kpos kc, of "of_nat x", folded s2_def]
  have hd2: "hd0 s2 = hd0 s" unfolding s2_def using hd1 by simp
  from alloc_blks_split[OF old1] obtain xs ys where
    bs1: "bs1 = xs @ (c, True) # ys" and x: "x = hd0 s2 + total xs + 8" unfolding hd1 hd2 by blast
  note fr = free_ok[OF mh(1)[unfolded bs1] x, folded s'2]
  from fr(1) obtain Ls' where h': "heap_ok s' (coalesced xs c ys) Ls'" ..
  have ok: "sizes_ok xs" "sizes_ok ys" "32 \<le> c" using layoutD(1)[OF d1(1)] unfolding bs1 by simp_all
  have xn: "(x, c) \<notin> alloc_blks (hd0 s) (xs @ (c, False) # ys)"
    using alloc_blks_notin[OF ok, of "hd0 s" c] x hd2 by simp
  have "alloc_blks (hd0 s) bs1 = insert (x, c) (alloc_blks (hd0 s) (xs @ (c, False) # ys))"
    unfolding bs1 alloc_blks_mark using x hd2 by simp
  then have af: "alloc_blks (hd0 s) (xs @ (c, False) # ys) = alloc_blks (hd0 s) bs1 - {(x, c)}"
    using xn by auto
  have ne: "(pn, c') \<noteq> (x, c)" using nw old by auto
  have ab': "alloc_blks (hd0 s) (coalesced xs c ys)
      = insert (pn, c') (alloc_blks (hd0 s) bs - {(x, c)})"
    unfolding alloc_blks_coalesced af ab using ne by auto
  show "\<exists>bs' Ls' c'. heap_ok s' bs' Ls' \<and> asize_of (unat n) \<le> c'
            \<and> alloc_blks (hd0 s) bs' = insert (unat p, c') (alloc_blks (hd0 s) bs - {(x, c)})
            \<and> (unat p, c') \<notin> alloc_blks (hd0 s) bs"
    using h' ac ab' nw unfolding pn_def by blast
  show "hd0 s' = hd0 s" using fr(3) hd2 by simp
  have newf: "(pn, c') \<in> alloc_blks (hd0 s2) (xs @ (c, False) # ys)"
    unfolding hd2 af ab using ne by simp
  show "\<forall>i < min (c - 16) (unat n). mem s' (p + of_nat i) = mem s (of_nat x + of_nat i)"
  proof (intro allI impI)
    fix i assume i: "i < min (c - 16) (unat n)"
    then have ik: "i < k" and ic: "i + 16 < c" and ic': "i + 16 < c'"
      using aj(4) ac fo(3) unfolding k_def by linarith+
    \<comment> \<open>the byte of the new block survives the release of the old block\<close>
    have "pn + 8 * (i div 8) \<in> alloc_words (hd0 s2) (xs @ (c, False) # ys)"
      using newf fn(2) ic' by (rule word_in_blk)
    moreover have "va (pn + 8 * (i div 8))"
      using fn(1,6) ic' unfolding va_def by (auto simp add: dvd_16_8 intro!: dvd_add)
    ultimately have "rd s' (pn + 8 * (i div 8)) = rd s2 (pn + 8 * (i div 8))"
      using fr(2) by (simp add: keeps_def)
    then have a: "mem s' (of_nat (pn + i)) = mem s2 (of_nat (pn + i))"
      by (rule rd_byte) presburger+
    \<comment> \<open>it is the byte that was copied\<close>
    have b: "mem s2 (of_nat (pn + i)) = mem s1 (of_nat (x + i))"
      unfolding s2_def using ik k64 by (rule memcpy_inside)
    \<comment> \<open>and the allocation left the old block alone\<close>
    have "x + 8 * (i div 8) \<in> alloc_words (hd0 s) bs"
      using old fo(2) ic by (rule word_in_blk)
    moreover have "va (x + 8 * (i div 8))"
      using fo(1,6) ic unfolding va_def by (auto simp add: dvd_16_8 intro!: dvd_add)
    ultimately have "rd s1 (x + 8 * (i div 8)) = rd s (x + 8 * (i div 8))"
      using k1 by (simp add: keeps_def)
    then have c: "mem s1 (of_nat (x + i)) = mem s (of_nat (x + i))"
      by (rule rd_byte) presburger+
    show "mem s' (p + of_nat i) = mem s (of_nat x + of_nat i)"
      unfolding pp using a b c by simp
  qed
qed

section \<open>Zero-filled allocation\<close>

lemma memset_fields [simp]:
  "seg (memset s d v k) = seg s" "heap_listp (memset s d v k) = heap_listp s"
  "mem_brk (memset s d v k) = mem_brk s" "mem_max_addr (memset s d v k) = mem_max_addr s"
  "hd0 (memset s d v k) = hd0 s"
  by (simp_all add: memset_def hd0_def)






section \<open>A run of the allocator\<close>

lemmas run_defs = heap1_def heap_a_def heap_b_def heap_c_def heap_d_def heap_e_def heap_f_def
  heap_g_def heap3_def

lemma run_a: "malloc heap1 48 = Some (4112, heap_a)"
  by (simp add: run_defs eval_defs fun_eq_iff)

lemma run_b: "malloc heap_a 1 = Some (4176, heap_b)"
  by (simp add: run_defs eval_defs fun_eq_iff)

lemma run_c: "malloc heap_b 48 = Some (4208, heap_c)"
  by (simp add: run_defs eval_defs fun_eq_iff)

lemma run_d: "malloc heap_c 1 = Some (4272, heap_d)"
  by (simp add: run_defs eval_defs fun_eq_iff)

lemma run_e: "malloc heap_d 48 = Some (4304, heap_e)"
  by (simp add: run_defs eval_defs fun_eq_iff)

lemma run_f: "free heap_e 4112 = heap_f"
  by (simp add: run_defs eval_defs fun_eq_iff)

lemma run_g: "free heap_f 4208 = heap_g"
  by (simp add: run_defs eval_defs fun_eq_iff)

lemma run_h: "free heap_g 4304 = heap3"
  by (simp add: run_defs eval_defs fun_eq_iff)

lemma rd_heap3:
  "rd heap3 4112 = 4208" "rd heap3 4120 = 0" "rd heap3 4208 = 4304" "rd heap3 4216 = 4112"
  "rd heap3 4304 = 0" "rd heap3 4312 = 4208"
  by (simp_all add: rd_def run_defs GET_rec load64_store64 load64_zero)

lemma heap3_fields: "seg heap3 = (\<lambda>_. 0)(2 := 4304)"
  by (simp add: heap3_def)

lemma heap3_table: "table_ok heap3 lists3"
  by (auto simp add: table_ok_def lists3_def heap3_fields rd_heap3 cell_def)

section \<open>Copies on concrete heaps, and a list that loops\<close>

lemma memcpy_rec:
  "memcpy \<lparr>mem = m, seg = sg, heap_listp = h, free_list = f, mem_brk = b, mem_max_addr = mx\<rparr> d r k
   = \<lparr>mem = (\<lambda>a. if a - d < k then m (r + (a - d)) else m a), seg = sg, heap_listp = h,
       free_list = f, mem_brk = b, mem_max_addr = mx\<rparr>"
  by (simp add: memcpy_def cong: if_cong)

lemma load64_copy_out:
  "n \<le> q - dst \<Longrightarrow> 8 \<le> dst - q \<Longrightarrow>
   load64 (\<lambda>a. if a - dst < n then m (src + (a - dst)) else m a) q = load64 m q"
  by (rule load64_cong) (simp add: range_offset_word of_nat_small_less leD)

lemma load64_copy_in:
  fixes q dst n :: "64 word"
  assumes "unat (q - dst) + 8 \<le> unat n"
  shows "load64 (\<lambda>a. if a - dst < n then m (src + (a - dst)) else m a) q
         = load64 m (src + (q - dst))"
proof -
  have "load64 (\<lambda>a. if a - dst < n then m (src + (a - dst)) else m a) q
      = load64 (\<lambda>a. m (src + (a - dst))) q"
  proof (rule load64_cong)
    fix k :: nat assume k: "k < 8"
    have u: "unat (of_nat k :: 64 word) = k" using k by (rule unat_of_nat_small)
    have "unat n < 2 ^ 64" using unsigned_less[of n] by simp
    then have "unat (q - dst) + k < 2 ^ 64" using assms k by simp
    then have "unat (q - dst + of_nat k) = unat (q - dst) + k"
      by (simp add: unat_word_ariths u)
    then have lt: "q - dst + of_nat k < n" using assms k by (simp add: word_less_nat_alt)
    have e: "q + of_nat k - dst = q - dst + of_nat k" by simp
    have "q + of_nat k - dst < n" unfolding e by (rule lt)
    then show "(if q + of_nat k - dst < n then m (src + (q + of_nat k - dst)) else m (q + of_nat k))
        = m (src + (q + of_nat k - dst))" by (simp only: if_True)
  qed
  also have "\<dots> = load64 m (src + (q - dst))"
    by (simp add: load64_def algebra_simps)
  finally show ?thesis .
qed

lemma self_loop_no_table:
  assumes i: "i < 11" and x: "0 < x" "x < 2 ^ 64"
    and h: "seg s i = of_nat x" and n: "rd s (x + 8) = of_nat x"
  shows "\<not> table_ok s Ls"
proof
  assume t: "table_ok s Ls"
  note d = table_okD[OF t i]
  have nz: "(of_nat x :: 64 word) \<noteq> 0"
    using x of_nat_inj64[of x 0] by simp
  have eq: "y = x" if "cell y" "(of_nat y :: 64 word) = of_nat x" for y
  proof -
    from that(1) have "y < 2 ^ 64" by (simp add: cell_def)
    then show ?thesis using that(2) x(2) by (simp add: of_nat_inj64)
  qed
  from d(1) h nz obtain y r where l: "Ls i = y # r" by (cases "Ls i") auto
  have y: "y = x" using d(1) d(3)[of y] h l eq by simp
  from d(1) have r: "dlseg s (of_nat x) (of_nat x) r 0" unfolding l y using n by simp
  then obtain z r' where l': "r = z # r'" using nz by (cases r) auto
  have "z = x" using r d(3)[of z] l l' eq by simp
  then show False using d(2) l l' y by simp
qed

section \<open>Size classes\<close>

text \<open>
  Claim C5. For every size, \<^verbatim>\<open>iterate\<close> (the specification's \<open>classOf\<close>) returns the index in
  \<open>[0, 10]\<close> given by range membership against the boundaries 32, 64, \<dots>, 16384: it is
  the number of boundaries the size has reached. Sizes below 32 and only those are in
  class 0, sizes from 16384 on and only those are in class 10, and 31, 32, 8191, 8192 are
  in classes 0, 1, 8, 9.
\<close>

theorem iterate_classOf:
  "iterate sz = classOf_spec sz \<and> iterate sz \<le> 10
   \<and> (iterate sz = 0) = (sz < 32) \<and> (iterate sz = 10) = (16384 \<le> sz)
   \<and> iterate 31 = 0 \<and> iterate 32 = 1 \<and> iterate 8191 = 8 \<and> iterate 8192 = 9"
  by (simp add: iterate_def classOf_spec_def class_bounds_def word_less_nat_alt word_le_nat_alt)

section \<open>The public operations\<close>

lemma malloc_zero: "malloc s 0 = Some (0, s)"
  by (simp add: malloc_def)

lemma realloc_null:
  "realloc s 0 n = (case malloc s n of None \<Rightarrow> None | Some (u, s') \<Rightarrow> malloc s' n)"
  by (simp add: realloc_def split: option.splits)

lemma realloc_zero_size: "p \<noteq> 0 \<Longrightarrow> realloc s p 0 = Some (0, free s p)"
  by (simp add: realloc_def malloc_zero)

text \<open>
  Claim C1. \<^verbatim>\<open>realloc(NULL, n)\<close> is meant to be \<^verbatim>\<open>malloc(n)\<close>, but \<^verbatim>\<open>realloc\<close> calls
  \<^verbatim>\<open>malloc(size)\<close> once before it looks at \<open>oldptr\<close> and a second time in the null branch:
  it is two allocations in a row, the first of which is lost. On \<open>heap1\<close>, \<^verbatim>\<open>malloc(1)\<close>
  returns 4112 and leaves the block at 4144 free with 224 bytes, whereas
  \<^verbatim>\<open>realloc(NULL, 1)\<close> returns 4144 and leaves both blocks allocated.
\<close>

theorem realloc_null_allocates_twice:
  "realloc s 0 n = (case malloc s n of None \<Rightarrow> None | Some (u, s') \<Rightarrow> malloc s' n)
   \<and> (\<exists>t t'. malloc heap1 1 = Some (4112, t) \<and> realloc heap1 0 1 = Some (4144, t')
        \<and> GET t 4136 = PACK 224 0 \<and> GET t' 4136 = PACK 32 1)"
proof -
  have "\<exists>t t'. malloc heap1 1 = Some (4112, t) \<and> realloc heap1 0 1 = Some (4144, t')
        \<and> GET t 4136 = PACK 224 0 \<and> GET t' 4136 = PACK 32 1"
    by (simp add: heap1_def eval_defs)
  then show ?thesis using realloc_null by blast
qed

text \<open>
  Claim C6. The adjusted size is computed as \<open>DSIZE * ((size + DSIZE + (DSIZE - 1)) / DSIZE)\<close>
  in 64-bit arithmetic, and the sum wraps for the 31 largest requests: the adjusted size of
  \<open>2^64 - 1\<close> is 16 and that of \<open>2^64 - 16\<close> is 0, both below the minimum block size 32.
  On \<open>heap1\<close> the first request is served with a block whose header says 16 bytes, and
  the second returns the payload pointer 4112 of a block that is still free and still
  the head of class 4.
\<close>

theorem adjust_wraps_below_minimum:
  "adjust 0xFFFFFFFFFFFFFFFF = 16 \<and> adjust 0xFFFFFFFFFFFFFFF0 = 0
   \<and> (\<exists>t. malloc heap1 0xFFFFFFFFFFFFFFFF = Some (4112, t) \<and> GET t (HDRP 4112) = PACK 16 1)
   \<and> (\<exists>t. malloc heap1 0xFFFFFFFFFFFFFFF0 = Some (4112, t) \<and> GET t (HDRP 4112) = PACK 256 0
          \<and> seg t 4 = 4112)"
  by (simp add: heap1_def eval_defs)

section \<open>Removal from the free-list table\<close>

text \<open>
  Claim C8. Let the block \<open>x\<close> be registered: it is in the list \<open>Ls i\<close> of a well-formed
  table, after the blocks \<open>pre\<close> and before the blocks \<open>post\<close>. If it is the head of its
  class (\<open>pre\<close> is empty), \<^verbatim>\<open>delete\<close> sets the head of the class to the block's \<open>next\<close> link
  and, when that is not null, clears the \<open>prev\<close> link of the new head. Otherwise it
  splices the block out through its own links: the \<open>next\<close> link of its predecessor
  (stored at \<open>prev + 8\<close>) becomes the block's \<open>next\<close>, and when that is not null, the \<open>prev\<close>
  link of the next block becomes the block's \<open>prev\<close>. The block's links are those of the
  list (\<open>next\<close> is the head of \<open>post\<close> or null, \<open>prev\<close> is the last of \<open>pre\<close> or null), and the
  table is well formed afterwards with \<open>x\<close> taken out of class \<open>i\<close>.
\<close>

theorem delete_registered:
  assumes t: "table_ok s Ls" and i: "i < 11" and l: "Ls i = pre @ x # post"
  shows "delete s (of_nat x) =
          (if pre = [] then
             (if NEXTF s (of_nat x) = 0 then s\<lparr>seg := (seg s)(i := 0)\<rparr>
              else (PUT s (NEXTF s (of_nat x)) 0)\<lparr>seg := (seg s)(i := NEXTF s (of_nat x))\<rparr>)
           else
             (if NEXTF s (of_nat x) = 0 then PUT s (PREVF s (of_nat x) + WSIZE) 0
              else PUT (PUT s (NEXTF s (of_nat x)) (PREVF s (of_nat x)))
                     (PREVF s (of_nat x) + WSIZE) (NEXTF s (of_nat x))))
       \<and> NEXTF s (of_nat x) = (case post of [] \<Rightarrow> 0 | y # _ \<Rightarrow> of_nat y)
       \<and> PREVF s (of_nat x) = (if pre = [] then 0 else of_nat (last pre))
       \<and> table_ok (delete s (of_nat x)) (Ls(i := pre @ post))"
proof -
  have d: "dlseg s 0 (seg s i) (pre @ x # post) 0" using table_okD(1)[OF t i] l by simp
  then obtain m where m: "dlseg s (lastp 0 pre) m (x # post) 0" unfolding dlseg_append by blast
  have lp: "lastp 0 pre = (if pre = [] then 0 else of_nat (last pre))"
    by (cases pre rule: rev_cases) simp_all
  have pv: "PREVF s (of_nat x) = (if pre = [] then 0 else of_nat (last pre))"
    using m lp by (simp add: PREVF_rd)
  have nx: "NEXTF s (of_nat x) = (case post of [] \<Rightarrow> 0 | y # _ \<Rightarrow> of_nat y)"
    using m by (cases post) (simp_all add: NEXTF_rd)
  have c: "\<forall>z \<in> set (pre @ x # post). cell z" using table_okD(3)[OF t i] l by simp
  have eq: "delete s (of_nat x) =
          (if pre = [] then
             (if NEXTF s (of_nat x) = 0 then s\<lparr>seg := (seg s)(i := 0)\<rparr>
              else (PUT s (NEXTF s (of_nat x)) 0)\<lparr>seg := (seg s)(i := NEXTF s (of_nat x))\<rparr>)
           else
             (if NEXTF s (of_nat x) = 0 then PUT s (PREVF s (of_nat x) + WSIZE) 0
              else PUT (PUT s (NEXTF s (of_nat x)) (PREVF s (of_nat x)))
                     (PREVF s (of_nat x) + WSIZE) (NEXTF s (of_nat x))))"
  proof (cases pre rule: rev_cases)
    case Nil
    show ?thesis
    proof (cases post)
      case Nil
      with \<open>pre = []\<close> l have "Ls i = [x]" by simp
      from delete_head_nil[OF t i this] show ?thesis using nx \<open>pre = []\<close> \<open>post = []\<close> by simp
    next
      case (Cons y r)
      with \<open>pre = []\<close> l have "Ls i = x # y # r" by simp
      from delete_head_cons[OF t i this] show ?thesis
        using nx \<open>pre = []\<close> Cons c cell_nonzero[of y] by (simp add: PUT_wr)
    qed
  next
    case (snoc pre' p)
    show ?thesis
    proof (cases post)
      case Nil
      with snoc l have "Ls i = pre' @ [p, x]" by simp
      from delete_last[OF t i this] show ?thesis
        using nx pv snoc Nil by (simp add: PUT_wr8 WSIZE_def)
    next
      case (Cons y r)
      with snoc l have "Ls i = pre' @ p # x # y # r" by simp
      from delete_mid[OF t i this] show ?thesis
        using nx pv snoc Cons c cell_nonzero[of y] by (simp add: PUT_wr PUT_wr8 WSIZE_def)
    qed
  qed
  show ?thesis using eq nx pv delete_ok(1)[OF t i l] by blast
qed

theorem delete_registered_witness:
  "table_ok heap1 lists1 \<and> lists1 4 = [] @ 4112 # []
   \<and> delete heap1 4112 = heap1\<lparr>seg := (seg heap1)(4 := 0)\<rparr>
   \<and> table_ok (delete heap1 4112) (lists1(4 := []))
   \<and> table_ok heap3 lists3 \<and> lists3 2 = [4304, 4208, 4112]
   \<and> delete heap3 4304 = (PUT heap3 4208 0)\<lparr>seg := (seg heap3)(2 := 4208)\<rparr>
   \<and> table_ok (delete heap3 4304) (lists3(2 := [4208, 4112]))
   \<and> delete heap3 4208 = PUT (PUT heap3 4112 4304) (4304 + WSIZE) 4112
   \<and> table_ok (delete heap3 4208) (lists3(2 := [4304, 4112]))
   \<and> delete heap3 4112 = PUT heap3 (4208 + WSIZE) 0
   \<and> table_ok (delete heap3 4112) (lists3(2 := [4304, 4208]))"
proof -
  have l1: "lists1 4 = [] @ 4112 # []" by (simp add: lists1_def)
  have n1: "NEXTF heap1 4112 = 0" using rd_heap1(4) NEXTF_rd[of heap1 4112] by simp
  have a: "table_ok heap1 lists1 \<and> lists1 4 = [] @ 4112 # []
     \<and> delete heap1 4112 = heap1\<lparr>seg := (seg heap1)(4 := 0)\<rparr>
     \<and> table_ok (delete heap1 4112) (lists1(4 := []))"
    using delete_registered [OF heap1_table _ l1] l1 n1 heap1_table by auto
  have l3: "lists3 2 = [4304, 4208, 4112]" by (simp add: lists3_def)
  have h: "lists3 2 = [] @ 4304 # [4208, 4112]" using l3 by simp
  have m: "lists3 2 = [4304] @ 4208 # [4112]" using l3 by simp
  have t: "lists3 2 = [4304, 4208] @ 4112 # []" using l3 by simp
  have b: "delete heap3 4304 = (PUT heap3 4208 0)\<lparr>seg := (seg heap3)(2 := 4208)\<rparr>
     \<and> table_ok (delete heap3 4304) (lists3(2 := [4208, 4112]))"
    using delete_registered [OF heap3_table _ h] by auto
  have c: "delete heap3 4208 = PUT (PUT heap3 4112 4304) (4304 + WSIZE) 4112
     \<and> table_ok (delete heap3 4208) (lists3(2 := [4304, 4112]))"
    using delete_registered [OF heap3_table _ m] by auto
  have d: "delete heap3 4112 = PUT heap3 (4208 + WSIZE) 0
     \<and> table_ok (delete heap3 4112) (lists3(2 := [4304, 4208]))"
    using delete_registered [OF heap3_table _ t] by auto
  show ?thesis using a b c d heap3_table l3 by blast
qed

section \<open>Placement splits at 32 bytes\<close>

text \<open>
  Claim C7. Placing an adjusted size \<open>a\<close> into a free block of size \<open>c \<ge> a\<close> of a
  well-formed heap splits the block if and only if \<open>c - a \<ge> 32\<close>: then the heap holds in
  its place an allocated block of size \<open>a\<close> followed by a free block of size \<open>c - a\<close>,
  which has gone through \<^verbatim>\<open>coalesce\<close> and is registered; otherwise it holds the whole
  block of size \<open>c\<close>, allocated. The heap is well formed afterwards, so every block in
  it, the remainder included, has at least 32 bytes.
\<close>

theorem place_splits:
  assumes "heap_ok s (xs @ (c, False) # ys) Ls" and "x = hd0 s + total xs + 8"
    and "32 \<le> a" "16 dvd a" "a \<le> c"
  shows "\<exists>Ls'. heap_ok (place s (of_nat x) (of_nat a))
            (xs @ (if 32 \<le> c - a then [(a, True), (c - a, False)] else [(c, True)]) @ ys) Ls'"
proof (cases "32 \<le> c - a")
  case True
  from place_split(1)[OF assms True] show ?thesis using True by simp
next
  case False
  then have "c - a < 32" by simp
  from place_whole(1)[OF assms(1,2,5) this] show ?thesis using False by simp
qed

theorem place_splits_witness:
  "heap_ok heap1 ([] @ (256, False) # []) lists1
   \<and> (\<exists>Ls'. heap_ok (place heap1 4112 32) [(32, True), (224, False)] Ls')
   \<and> (\<exists>Ls'. heap_ok (place heap1 4112 240) [(256, True)] Ls')"
proof -
  have h: "heap_ok heap1 ([] @ (256, False) # []) lists1" using heap1_ok by simp
  have x: "(4112::nat) = hd0 heap1 + total [] + 8" by (simp add: heap1_fields total_def)
  show ?thesis
    using place_splits [OF h x, of 32] place_splits [OF h x, of 240] h by simp
qed

section \<open>Null results of \<^verbatim>\<open>malloc\<close>\<close>

text \<open>
  Claim C4. On a well-formed heap \<^verbatim>\<open>malloc(n)\<close> returns, for every \<open>n\<close>, and its result is
  null exactly when \<open>n = 0\<close> or when the fit search found no block and \<^verbatim>\<open>mem_sbrk\<close> refused
  the extension, which is of \<open>MAX(asize, CHUNKSIZE)\<close> bytes. Whenever the result is null the
  state is the one before the call: nothing has been written.
\<close>

theorem malloc_null_iff:
  assumes "heap_ok s bs Ls"
  shows "\<exists>p s'. malloc s n = Some (p, s')
      \<and> (p = 0) = (n = 0 \<or> (find_fit s (adjust n) = Some 0
                             \<and> mem_sbrk s (MAX_sz (adjust n) CHUNKSIZE) = None))
      \<and> (p = 0 \<longrightarrow> s' = s)"
  using malloc_null[OF assms] .

theorem malloc_null_iff_witness:
  "heap_ok heap1 [(256, False)] lists1
   \<and> malloc heap1 5000 = Some (0, heap1)
   \<and> find_fit heap1 (adjust 5000) = Some 0
   \<and> mem_sbrk heap1 (MAX_sz (adjust 5000) CHUNKSIZE) = None
   \<and> (\<exists>p s'. malloc heap1 1 = Some (p, s') \<and> p \<noteq> 0)"
proof -
  have f: "find_fit heap1 (adjust 5000) = Some 0"
    "mem_sbrk heap1 (MAX_sz (adjust 5000) CHUNKSIZE) = None"
    "find_fit heap1 (adjust 1) \<noteq> Some 0" "(5000 :: size_t) \<noteq> 0" "(1 :: size_t) \<noteq> 0"
    by (simp_all add: heap1_def eval_defs)
  show ?thesis
    using malloc_null_iff [OF heap1_ok, of 5000] malloc_null_iff [OF heap1_ok, of 1] f heap1_ok
    by auto
qed

section \<open>A wrapped request breaks the table\<close>

text \<open>
  Claim C3. The claim fails on the code: on \<open>heap1\<close>, \<^verbatim>\<open>malloc(2^64 - 16)\<close> adjusts the size to
  0 (the sum in the adjustment wraps), finds the block at 4112, and returns 4112 while
  the block is still free and still the head of class 4. When the caller releases that
  pointer, \<^verbatim>\<open>free\<close> inserts the block a second time: its \<open>next\<close> link points to itself, and
  no table describes the lists any more, so the block is not registered exactly once.
  For requests up to \<open>2^64 - 32\<close> bytes the heap stays well formed (lemmas \<open>coalesce_ok\<close>,
  \<open>extend_ok\<close>, \<open>free_ok\<close>, \<open>malloc_ok\<close>).
\<close>

theorem wrapped_request_breaks_table:
  "\<exists>t. malloc heap1 0xFFFFFFFFFFFFFFF0 = Some (4112, t)
       \<and> seg t 4 = 4112 \<and> GET t (HDRP 4112) = PACK 256 0
       \<and> seg (free t 4112) 4 = 4112 \<and> NEXTF (free t 4112) 4112 = 4112
       \<and> (\<forall>Ls. \<not> table_ok (free t 4112) Ls)"
proof -
  obtain t where t: "malloc heap1 0xFFFFFFFFFFFFFFF0 = Some (4112, t)"
    "seg t 4 = 4112" "GET t (HDRP 4112) = PACK 256 0"
    "seg (free t 4112) 4 = 4112" "NEXTF (free t 4112) 4112 = 4112"
    by (simp add: heap1_def eval_defs)
  have "rd (free t 4112) (4112 + 8) = of_nat 4112"
    using t(5) NEXTF_rd[of "free t 4112" 4112] by simp
  moreover have "seg (free t 4112) 4 = of_nat 4112" using t(4) by simp
  ultimately have "\<not> table_ok (free t 4112) Ls" for Ls
    by (intro self_loop_no_table[of 4 4112]) simp_all
  then show ?thesis using t by blast
qed

theorem wrapped_request_breaks_table_witness:
  "\<exists>t. malloc heap1 0xFFFFFFFFFFFFFFF0 = Some (4112, t)
       \<and> table_ok heap1 lists1 \<and> \<not> table_ok (free t 4112) lists1"
  using wrapped_request_breaks_table heap1_table by blast

section \<open>\<^verbatim>\<open>realloc\<close> copies the footer\<close>

text \<open>
  Claim C2. The number of bytes that \<^verbatim>\<open>realloc\<close> copies is \<open>MIN(GET_SIZE(HDRP(oldptr)) - WSIZE,
  size)\<close>: the block size less one word, although a block has two words of overhead and
  its payload ends at \<open>FTRP\<close>, 16 bytes below the block size. On \<open>heap2\<close> the block at 4112
  has 32 bytes, its payload 16 bytes and its footer is at 4128; \<^verbatim>\<open>realloc(4112, 100)\<close>
  allocates the block at 4144 and copies 24 bytes, the payload and the footer, so that
  the third word of the new payload, 0 before, holds the old footer \<open>PACK 32 1\<close>. The
  first \<open>min(old payload, size)\<close> bytes are preserved all the same (lemma \<open>realloc_ok\<close>).
\<close>

theorem realloc_copies_footer:
  "\<exists>s1. malloc heap2 100 = Some (4144, s1)
      \<and> realloc heap2 4112 100 = Some (4144, free (memcpy s1 4144 4112 24) 4112)
      \<and> GET_SIZE s1 (HDRP 4112) = 32 \<and> FTRP s1 4112 = 4128
      \<and> MIN_sz (GET_SIZE s1 (HDRP 4112) - WSIZE) 100 = 24
      \<and> GET s1 4160 = 0
      \<and> GET (free (memcpy s1 4144 4112 24) 4112) 4160 = PACK 32 1"
  by (simp add: heap2_def heap1_def eval_defs memcpy_rec load64_copy_out load64_copy_in)

section \<open>\<^verbatim>\<open>calloc\<close> and the wrapped product\<close>




end
